theory Spec2Isabelle
  imports Main "HOL-Library.Multiset"
begin

section \<open>Data model\<close>

text \<open>
  The scheduler of \<^verbatim>\<open>src/actions.ts\<close>: it selects the work items of a run
  (\<^verbatim>\<open>getProjectsToRunActionIn\<close>) and executes them tier by tier (\<^verbatim>\<open>actions\<close>).
  JavaScript objects become records, objects used as dictionaries become association
  lists in declaration order (\<^verbatim>\<open>Object.entries\<close> iterates in that order), a thrown
  error becomes the left summand of a sum type.
\<close>

datatype error = TypeError | RangeError

text \<open>\<^verbatim>\<open>GroupKey\<close> of \<^verbatim>\<open>types/utils\<close>: the three keys of one unit of work.\<close>

record GroupKey =
  project :: string
  action :: string
  group :: string

text \<open>
  Modelled from the spec: \<^verbatim>\<open>types/config\<close> is not among the sources. An ActionSpec has an
  optional priority override, the list of project names it needs and a mapping from
  group name to command. A ProjectSpec has a remote, an optional default priority
  (read as \<^verbatim>\<open>project.priority\<close> by the older runner) and a mapping from action
  name to ActionSpec.
\<close>

record ProjectAction =
  priority :: "int option"
  needs :: "string list"
  groups :: "(string \<times> string list) list"

record Project =
  remote :: string
  project_priority :: "int option"
  actions :: "(string \<times> ProjectAction) list"

record Config =
  cwd :: string
  projects :: "(string \<times> Project) list"

text \<open>
  A work item is \<^verbatim>\<open>GroupKey & ProjectAction\<close>: the fields of the action together with
  the keys it runs under.
\<close>

record WorkItem = ProjectAction +
  keys :: GroupKey

text \<open>
  \<^verbatim>\<open>ActionOutput\<close>: the keys, the output of the child process and the two skip marks.
  A field that the JavaScript object leaves undefined is \<open>None\<close>.
\<close>

record ActionOutput = GroupKey +
  stdout :: "string option"
  stderr :: "string option"
  exitCode :: "int option"
  signal :: "string option"
  dir :: "string option"
  cmd :: "string list option"
  wasSkippedBy :: "string option"
  wasSkippedDuplicated :: bool

section \<open>Selection and dependency closure\<close>

definition hasGroup :: "'a ProjectAction_scheme \<Rightarrow> string \<Rightarrow> bool" where
  "hasGroup a g = (map_of (groups a) g \<noteq> None)"

text \<open>\<^verbatim>\<open>project.actions[actionToRun]?.groups[g]\<close> read as a truth value.\<close>

definition projectHasGroup :: "Project \<Rightarrow> string \<Rightarrow> string \<Rightarrow> bool" where
  "projectHasGroup p actionToRun g =
     (case map_of (actions p) actionToRun of None \<Rightarrow> False | Some a \<Rightarrow> hasGroup a g)"

text \<open>
  The object literal \<^verbatim>\<open>{project, action, group, ...projectAction}\<close>. Spreading an
  undefined action adds nothing: the three fields of the action stay undefined, which
  the selection filter excludes before the literal is built.
\<close>

definition mkItem :: "GroupKey \<Rightarrow> ProjectAction \<Rightarrow> WorkItem" where
  "mkItem k a = \<lparr>priority = priority a, needs = needs a, groups = groups a, keys = k\<rparr>"

text \<open>
  The first statement of \<^verbatim>\<open>getProjectsToRunActionIn\<close>: the entries of
  \<^verbatim>\<open>config.projects\<close> whose action has the requested group or \<^verbatim>\<open>"*"\<close>, restricted
  to \<^verbatim>\<open>projectsToRun\<close>, each turned into a work item.
\<close>

definition directActions :: "Config \<Rightarrow> string \<Rightarrow> string \<Rightarrow> string list \<Rightarrow> WorkItem list" where
  "directActions config actionToRun groupToRun projectsToRun =
     concat (map (\<lambda>(projectName, p).
         (case map_of (actions p) actionToRun of
            None \<Rightarrow> []
          | Some a \<Rightarrow>
              [mkItem \<lparr>project = projectName, action = actionToRun,
                       group = (if hasGroup a groupToRun then groupToRun else ''*'')\<rparr> a]))
       (filter (\<lambda>(projectName, p). projectName \<in> set projectsToRun)
         (filter (\<lambda>(projectName, p).
              projectHasGroup p actionToRun groupToRun \<or> projectHasGroup p actionToRun ''*'')
            (projects config))))"

text \<open>
  \<^verbatim>\<open>{...action, project: need, ...neededAction}\<close>: the needing item with its project
  renamed, overwritten by the fields the needed action has. An undefined needed action
  overwrites nothing; a needed action without a priority leaves the priority of the
  needing item in place.
\<close>

definition neededItem :: "WorkItem \<Rightarrow> string \<Rightarrow> ProjectAction option \<Rightarrow> WorkItem" where
  "neededItem a need neededAction =
     (case neededAction of
        None \<Rightarrow> a\<lparr>keys := (keys a)\<lparr>project := need\<rparr>\<rparr>
      | Some n \<Rightarrow>
          \<lparr>priority = (case priority n of None \<Rightarrow> priority a | Some p \<Rightarrow> Some p),
           needs = needs n, groups = groups n,
           keys = (keys a)\<lparr>project := need\<rparr>\<rparr>)"

text \<open>
  \<^verbatim>\<open>resolveProjectDependencies\<close>. The recursion follows \<^verbatim>\<open>needs\<close> and has no other
  bound, so the first argument is the depth of call stack that is left: at depth zero
  the engine throws RangeError. Reading \<^verbatim>\<open>.actions\<close> of an undeclared project throws
  TypeError. The sets hold object references in insertion order: every object of the
  recursive result is fresh, so \<^verbatim>\<open>new Set([action, ...rec, ...carry])\<close> is the action,
  the recursive result and the carry without its own leading \<^verbatim>\<open>action\<close>.
\<close>

fun resolveProjectDependencies :: "nat \<Rightarrow> Config \<Rightarrow> WorkItem \<Rightarrow> error + WorkItem list" where
  "resolveProjectDependencies 0 config a = Inl RangeError"
| "resolveProjectDependencies (Suc depth) config a =
     (if needs a \<noteq> [] then
        foldl (\<lambda>carry need.
            (case carry of
               Inl e \<Rightarrow> Inl e
             | Inr c \<Rightarrow>
                 (case map_of (projects config) need of
                    None \<Rightarrow> Inl TypeError
                  | Some p \<Rightarrow>
                      (case resolveProjectDependencies depth config
                              (neededItem a need (map_of (actions p) (action (keys a)))) of
                         Inl e \<Rightarrow> Inl e
                       | Inr r \<Rightarrow> Inr (a # r @ tl c)))))
          (Inr []) (needs a)
      else Inr [a])"

text \<open>\<^verbatim>\<open>_.uniqBy\<close>: the first element of every key, in order.\<close>

fun uniqByFrom :: "'b list \<Rightarrow> ('a \<Rightarrow> 'b) \<Rightarrow> 'a list \<Rightarrow> 'a list" where
  "uniqByFrom seen f [] = []"
| "uniqByFrom seen f (x # xs) =
     (if f x \<in> set seen then uniqByFrom seen f xs else x # uniqByFrom (f x # seen) f xs)"

definition uniqBy :: "'a list \<Rightarrow> ('a \<Rightarrow> 'b) \<Rightarrow> 'a list" where
  "uniqBy xs f = uniqByFrom [] f xs"

text \<open>
  The closure before \<^verbatim>\<open>_.uniqBy\<close>: the union of the closures of the direct actions (all
  references distinct, so a concatenation), the viability filter and the rebinding of
  the group from the configuration.
\<close>

fun resolveAll :: "nat \<Rightarrow> Config \<Rightarrow> WorkItem list \<Rightarrow> error + WorkItem list" where
  "resolveAll depth config [] = Inr []"
| "resolveAll depth config (a # rest) =
     (case resolveProjectDependencies depth config a of
        Inl e \<Rightarrow> Inl e
      | Inr r \<Rightarrow> (case resolveAll depth config rest of Inl e \<Rightarrow> Inl e | Inr rs \<Rightarrow> Inr (r @ rs)))"

fun rebindGroups :: "Config \<Rightarrow> string \<Rightarrow> string \<Rightarrow> WorkItem list \<Rightarrow> error + WorkItem list" where
  "rebindGroups config groupToRun actionToRun [] = Inr []"
| "rebindGroups config groupToRun actionToRun (a # rest) =
     (case map_of (projects config) (project (keys a)) of
        None \<Rightarrow> Inl TypeError
      | Some p \<Rightarrow>
          (case rebindGroups config groupToRun actionToRun rest of
             Inl e \<Rightarrow> Inl e
           | Inr rs \<Rightarrow>
               Inr (a\<lparr>keys := (keys a)\<lparr>group :=
                      (if projectHasGroup p actionToRun groupToRun then groupToRun else ''*'')\<rparr>\<rparr> # rs)))"

definition discovered :: "nat \<Rightarrow> WorkItem list \<Rightarrow> Config \<Rightarrow> string \<Rightarrow> string \<Rightarrow> error + WorkItem list" where
  "discovered depth actionsToRun config groupToRun actionToRun =
     (case resolveAll depth config actionsToRun of
        Inl e \<Rightarrow> Inl e
      | Inr found \<Rightarrow>
          rebindGroups config groupToRun actionToRun
            (filter (\<lambda>a. hasGroup a groupToRun \<or> hasGroup a ''*'') found))"

definition resolveDependenciesForActions ::
  "nat \<Rightarrow> WorkItem list \<Rightarrow> Config \<Rightarrow> string \<Rightarrow> string \<Rightarrow> error + WorkItem list" where
  "resolveDependenciesForActions depth actionsToRun config groupToRun actionToRun =
     (case discovered depth actionsToRun config groupToRun actionToRun of
        Inl e \<Rightarrow> Inl e
      | Inr found \<Rightarrow> Inr (uniqBy found (\<lambda>a. project (keys a))))"

text \<open>
  The rewiring of \<^verbatim>\<open>getProjectsToRunActionIn\<close> for one project without the requested
  group: every item that needs it loses it and gains the needs the configuration gives
  that project's action.
\<close>

definition configNeeds :: "Config \<Rightarrow> string \<Rightarrow> string \<Rightarrow> string list" where
  "configNeeds config actionToRun name =
     (case map_of (projects config) name of
        None \<Rightarrow> []
      | Some p \<Rightarrow> (case map_of (actions p) actionToRun of None \<Rightarrow> [] | Some a \<Rightarrow> needs a))"

definition rewire :: "Config \<Rightarrow> string \<Rightarrow> WorkItem list \<Rightarrow> string \<Rightarrow> WorkItem list" where
  "rewire config actionToRun actionsToRun actionNoGroup =
     map (\<lambda>a. if actionNoGroup \<in> set (needs a)
              then a\<lparr>needs := filter (\<lambda>need. need \<noteq> actionNoGroup) (needs a)
                                 @ configNeeds config actionToRun actionNoGroup\<rparr>
              else a)
       actionsToRun"

text \<open>
  The filter over the reversed topological order: \<^verbatim>\<open>config.projects[name].actions\<close>
  throws TypeError for an undeclared name.
\<close>

fun withoutGroup :: "Config \<Rightarrow> string \<Rightarrow> string \<Rightarrow> string list \<Rightarrow> error + string list" where
  "withoutGroup config actionToRun groupToRun [] = Inr []"
| "withoutGroup config actionToRun groupToRun (name # rest) =
     (case map_of (projects config) name of
        None \<Rightarrow> Inl TypeError
      | Some p \<Rightarrow>
          (case withoutGroup config actionToRun groupToRun rest of
             Inl e \<Rightarrow> Inl e
           | Inr ns \<Rightarrow>
               Inr (if projectHasGroup p actionToRun groupToRun then ns else name # ns)))"

text \<open>
  \<^verbatim>\<open>getProjectsToRunActionIn\<close>. \<^verbatim>\<open>topologicalSortActionGraph\<close> lives in
  \<^verbatim>\<open>graph\<close>, which is not among the sources: it is a parameter.
\<close>

definition getProjectsToRunActionIn ::
  "(Config \<Rightarrow> string \<Rightarrow> string list) \<Rightarrow> nat \<Rightarrow> Config \<Rightarrow> string \<Rightarrow> string \<Rightarrow> string list
     \<Rightarrow> error + WorkItem list" where
  "getProjectsToRunActionIn topologicalSortActionGraph depth config actionToRun groupToRun projectsToRun =
     (case resolveDependenciesForActions depth
             (directActions config actionToRun groupToRun projectsToRun)
             config groupToRun actionToRun of
        Inl e \<Rightarrow> Inl e
      | Inr actionsToRun \<Rightarrow>
          (case withoutGroup config actionToRun groupToRun
                  (rev (topologicalSortActionGraph config actionToRun)) of
             Inl e \<Rightarrow> Inl e
           | Inr noGroup \<Rightarrow> Inr (foldl (rewire config actionToRun) actionsToRun noGroup)))"

section \<open>The action invoker\<close>

text \<open>
  What the child process reports: \<^verbatim>\<open>utils.spawn\<close> and \<^verbatim>\<open>getProjectDirFromRemote\<close> are
  outside the sources and are parameters of \<^verbatim>\<open>runAction\<close>. A result that is an
  error object of the spawn (caught by \<^verbatim>\<open>promise.catch\<close>) has no exit code.
\<close>

record ChildProcessOutput =
  child_stdout :: "string option"
  child_stderr :: "string option"
  child_exitCode :: "int option"
  child_signal :: "string option"

text \<open>
  \<^verbatim>\<open>runAction\<close>: the command is that of the group of the keys and, when the action has
  no such group, that of \<^verbatim>\<open>"*"\<close>. Reading a field of an undefined project, action or
  command throws TypeError.
\<close>

definition runAction ::
  "(string \<Rightarrow> string \<Rightarrow> string) \<Rightarrow> (string list \<Rightarrow> string \<Rightarrow> ChildProcessOutput) \<Rightarrow> Config
     \<Rightarrow> GroupKey \<Rightarrow> error + ActionOutput" where
  "runAction getProjectDirFromRemote spawn config k =
     (case map_of (projects config) (project k) of
        None \<Rightarrow> Inl TypeError
      | Some p \<Rightarrow>
          (case map_of (actions p) (action k) of
             None \<Rightarrow> Inl TypeError
           | Some a \<Rightarrow>
               (case (case map_of (groups a) (group k) of
                        None \<Rightarrow> map_of (groups a) ''*''
                      | Some c \<Rightarrow> Some c) of
                  None \<Rightarrow> Inl TypeError
                | Some c \<Rightarrow>
                    (let d = getProjectDirFromRemote (cwd config) (remote p);
                         res = spawn c d
                     in Inr \<lparr>project = project k, action = action k, group = group k,
                             stdout = Some (case child_stdout res of None \<Rightarrow> [] | Some s \<Rightarrow> s),
                             stderr = Some (case child_stderr res of None \<Rightarrow> [] | Some s \<Rightarrow> s),
                             exitCode = child_exitCode res,
                             signal = child_signal res,
                             dir = Some d,
                             cmd = Some c,
                             wasSkippedBy = None,
                             wasSkippedDuplicated = False\<rparr>))))"

section \<open>The pending pool and the cascading skip\<close>

text \<open>
  \<^verbatim>\<open>blockedActions\<close> is an array of references to the objects of
  \<^verbatim>\<open>projectsToRunActionIn\<close>; \<^verbatim>\<open>delete\<close> leaves a hole. The objects live in a store
  indexed by address, the array is a list of addresses with \<open>None\<close> for a hole, and
  every array method skips the holes.
\<close>

fun present :: "nat option list \<Rightarrow> nat list" where
  "present [] = []"
| "present (None # bs) = present bs"
| "present (Some a # bs) = a # present bs"

text \<open>\<^verbatim>\<open>delete blockedActions[blockedActions.indexOf(a)]\<close>; index \<open>-1\<close> deletes nothing.\<close>

fun deleteRef :: "nat \<Rightarrow> nat option list \<Rightarrow> nat option list" where
  "deleteRef a [] = []"
| "deleteRef a (b # bs) = (if b = Some a then None # bs else b # deleteRef a bs)"

text \<open>\<^verbatim>\<open>{...actionToSkip, wasSkippedBy: failedProject}\<close>, with the fields of an output.\<close>

definition skipRecord :: "WorkItem \<Rightarrow> string \<Rightarrow> ActionOutput" where
  "skipRecord a failedProject =
     \<lparr>project = project (keys a), action = action (keys a), group = group (keys a),
      stdout = None, stderr = None, exitCode = None, signal = None, dir = None, cmd = None,
      wasSkippedBy = Some failedProject, wasSkippedDuplicated = False\<rparr>"

definition actionsToSkip :: "string \<Rightarrow> (nat \<Rightarrow> WorkItem) \<Rightarrow> nat option list \<Rightarrow> nat list" where
  "actionsToSkip failedProject h blocked =
     filter (\<lambda>a. failedProject \<in> set (needs (h a))) (present blocked)"

text \<open>
  \<^verbatim>\<open>findActionsToSkipAfterFailure\<close> and the body of its \<^verbatim>\<open>forEach\<close>
  (\<open>skipEach\<close>), which runs over the list filtered on entry. The result is the list
  of records and the array after the deletions.
\<close>

function findActionsToSkipAfterFailure ::
    "string \<Rightarrow> (nat \<Rightarrow> WorkItem) \<Rightarrow> nat option list \<Rightarrow> ActionOutput list \<times> nat option list"
  and skipEach ::
    "string \<Rightarrow> (nat \<Rightarrow> WorkItem) \<Rightarrow> nat list \<Rightarrow> nat option list \<Rightarrow> ActionOutput list \<times> nat option list"
  where
  "findActionsToSkipAfterFailure failedProject h blocked =
     skipEach failedProject h (actionsToSkip failedProject h blocked) blocked"
| "skipEach failedProject h [] blocked = ([], blocked)"
| "skipEach failedProject h (a # rest) blocked =
     (case findActionsToSkipAfterFailure (project (keys (h a))) h (deleteRef a blocked) of
        (skipped, blocked1) \<Rightarrow>
          (case skipEach failedProject h rest blocked1 of
             (others, blocked2) \<Rightarrow> (skipRecord (h a) failedProject # skipped @ others, blocked2)))"
  by pat_completeness auto

text \<open>
  Termination of the cascade. Deleting only punches holes into the array; a call either
  runs on an array with fewer references, or on the same array with fewer entries of
  the filtered list that are no longer in it, or on a shorter list.
\<close>

definition punched :: "nat option list \<Rightarrow> nat option list \<Rightarrow> bool" where
  "punched b' b = list_all2 (\<lambda>x y. x = y \<or> x = None) b' b"

lemma punched_refl: "punched b b"
  by (simp add: punched_def list_all2_refl)

lemma punched_trans: "punched c b \<Longrightarrow> punched b a \<Longrightarrow> punched c a"
  unfolding punched_def list_all2_conv_all_nth by (metis option.distinct(1))

lemma punched_deleteRef: "punched (deleteRef a b) b"
  by (induction b) (auto simp: punched_def list_all2_refl)

lemma punched_present_le: "punched b' b \<Longrightarrow> length (present b') \<le> length (present b)"
  unfolding punched_def
proof (induction b' b rule: list_all2_induct)
  case Nil
  then show ?case by simp
next
  case (Cons x xs y ys)
  then show ?case by (cases x; cases y) auto
qed

lemma punched_present_eq: "punched b' b \<Longrightarrow> length (present b') = length (present b) \<Longrightarrow> b' = b"
  unfolding punched_def
proof (induction b' b rule: list_all2_induct)
  case Nil
  then show ?case by simp
next
  case (Cons x xs y ys)
  have le: "length (present xs) \<le> length (present ys)"
    using Cons.hyps(2) punched_present_le by (simp add: punched_def)
  show ?case
  proof (cases y)
    case None
    then show ?thesis using Cons by auto
  next
    case (Some a)
    then show ?thesis using Cons le by (cases x) auto
  qed
qed

lemma punched_set: "punched b' b \<Longrightarrow> set (present b') \<subseteq> set (present b)"
  unfolding punched_def
proof (induction b' b rule: list_all2_induct)
  case Nil
  then show ?case by simp
next
  case (Cons x xs y ys)
  then show ?case by (cases x; cases y) auto
qed

lemma deleteRef_absent: "a \<notin> set (present b) \<Longrightarrow> deleteRef a b = b"
  by (induction b rule: present.induct) auto

lemma deleteRef_present_less:
  "a \<in> set (present b) \<Longrightarrow> length (present (deleteRef a b)) < length (present b)"
  by (induction b rule: present.induct) auto

lemma skip_punched:
  "findActionsToSkipAfterFailure_skipEach_dom (Inl (f, h, b)) \<Longrightarrow>
     punched (snd (findActionsToSkipAfterFailure f h b)) b"
  "findActionsToSkipAfterFailure_skipEach_dom (Inr (f, h, s, b)) \<Longrightarrow>
     punched (snd (skipEach f h s b)) b"
proof (induction f h b and f h s b rule: findActionsToSkipAfterFailure_skipEach.pinduct)
  case (1 failedProject h blocked)
  then show ?case by (simp add: findActionsToSkipAfterFailure.psimps)
next
  case (2 failedProject h blocked)
  then show ?case by (simp add: skipEach.psimps punched_refl)
next
  case (3 failedProject h a rest blocked)
  obtain sk b1 where r1: "findActionsToSkipAfterFailure (project (keys (h a))) h (deleteRef a blocked) = (sk, b1)"
    by (cases "findActionsToSkipAfterFailure (project (keys (h a))) h (deleteRef a blocked)")
  obtain ot b2 where r2: "skipEach failedProject h rest b1 = (ot, b2)"
    by (cases "skipEach failedProject h rest b1")
  have p1: "punched b1 (deleteRef a blocked)" using "3.IH"(1) r1 by simp
  have p2: "punched b2 b1" using "3.IH"(2)[OF r1[symmetric]] r2 by simp
  show ?case
    using "3.hyps" r1 r2 p1 p2
    by (auto simp: skipEach.psimps intro: punched_trans punched_deleteRef)
qed


definition skipMeasure ::
  "(string \<times> (nat \<Rightarrow> WorkItem) \<times> nat option list) + (string \<times> (nat \<Rightarrow> WorkItem) \<times> nat list \<times> nat option list)
     \<Rightarrow> nat \<times> nat \<times> nat" where
  "skipMeasure x =
     (case x of
        Inl (f, h, b) \<Rightarrow> (length (present b), 1, 0)
      | Inr (f, h, s, b) \<Rightarrow>
          (length (present b), 2 * length (filter (\<lambda>a. a \<notin> set (present b)) s), length s))"

termination findActionsToSkipAfterFailure
proof (relation "inv_image (less_than <*lex*> less_than <*lex*> less_than) skipMeasure")
  show "wf (inv_image (less_than <*lex*> less_than <*lex*> less_than) skipMeasure)"
    by (intro wf_inv_image wf_lex_prod wf_less_than)
next
  fix failedProject h blocked
  show "(Inr (failedProject, h, actionsToSkip failedProject h blocked, blocked), Inl (failedProject, h, blocked))
          \<in> inv_image (less_than <*lex*> less_than <*lex*> less_than) skipMeasure"
    by (simp add: skipMeasure_def actionsToSkip_def)
next
  fix failedProject :: string and h :: "nat \<Rightarrow> WorkItem" and a rest blocked
  show "(Inl (project (keys (h a)), h, deleteRef a blocked), Inr (failedProject, h, a # rest, blocked))
          \<in> inv_image (less_than <*lex*> less_than <*lex*> less_than) skipMeasure"
    using deleteRef_present_less[of a blocked] deleteRef_absent[of a blocked]
    by (cases "a \<in> set (present blocked)") (auto simp: skipMeasure_def)
next
  fix failedProject :: string and h :: "nat \<Rightarrow> WorkItem" and a rest blocked x xa y
  assume r: "(xa, y) = findActionsToSkipAfterFailure (project (keys (h a))) h (deleteRef a blocked)"
    and d: "findActionsToSkipAfterFailure_skipEach_dom (Inl (project (keys (h a)), h, deleteRef a blocked))"
  have p: "punched y blocked"
    using skip_punched(1)[OF d] r[symmetric] punched_deleteRef[of a blocked]
    by (auto intro: punched_trans)
  show "(Inr (failedProject, h, rest, y), Inr (failedProject, h, a # rest, blocked))
          \<in> inv_image (less_than <*lex*> less_than <*lex*> less_than) skipMeasure"
    using punched_present_le[OF p] punched_present_eq[OF p]
    by (cases "length (present y) = length (present blocked)") (auto simp: skipMeasure_def)
qed


section \<open>The fan-out routine\<close>

text \<open>
  The reduce of \<^verbatim>\<open>runActionPromiseWrapper\<close> over \<^verbatim>\<open>blockedActions\<close>: every
  action of the array loses the finished project from its needs (the assignment writes
  the object in the store, which \<^verbatim>\<open>projectsToRunActionIn\<close> shares); one whose needs
  are empty then is deleted from the array and collected.
\<close>

definition dropNeed :: "string \<Rightarrow> WorkItem \<Rightarrow> WorkItem" where
  "dropNeed finished a = a\<lparr>needs := filter (\<lambda>need. need \<noteq> finished) (needs a)\<rparr>"

fun freeBlocked ::
  "string \<Rightarrow> (nat \<Rightarrow> WorkItem) \<Rightarrow> nat option list \<Rightarrow> (nat \<Rightarrow> WorkItem) \<times> nat option list \<times> nat list" where
  "freeBlocked finished h [] = (h, [], [])"
| "freeBlocked finished h (None # bs) =
     (case freeBlocked finished h bs of (h', bs', freed) \<Rightarrow> (h', None # bs', freed))"
| "freeBlocked finished h (Some a # bs) =
     (case freeBlocked finished (h(a := dropNeed finished (h a))) bs of
        (h', bs', freed) \<Rightarrow>
          (if needs (dropNeed finished (h a)) = []
           then (h', None # bs', a # freed)
           else (h', Some a # bs', freed)))"

text \<open>
  Modelled from the spec: \<^verbatim>\<open>ActionOutputPrinter\<close> (\<^verbatim>\<open>actions_utils\<close>) is not among the
  sources. \<^verbatim>\<open>beganTask(key)\<close> is false if the key already began and registers the
  key otherwise; \<^verbatim>\<open>init\<close> starts a run with no key begun; \<^verbatim>\<open>finishedTask\<close> is
  presentation bookkeeping and leaves the registry as it is.
\<close>

definition beganTask :: "GroupKey \<Rightarrow> GroupKey list \<Rightarrow> bool \<times> GroupKey list" where
  "beganTask k registry = (if k \<in> set registry then (False, registry) else (True, registry @ [k]))"

text \<open>\<^verbatim>\<open>{ wasSkippedDuplicated: true, ...runActionOpts.keys }\<close>.\<close>

definition duplicateRecord :: "GroupKey \<Rightarrow> ActionOutput" where
  "duplicateRecord k =
     \<lparr>project = project k, action = action k, group = group k,
      stdout = None, stderr = None, exitCode = None, signal = None, dir = None, cmd = None,
      wasSkippedBy = None, wasSkippedDuplicated = True\<rparr>"

text \<open>
  One call of \<^verbatim>\<open>runActionPromiseWrapper\<close> is a promise: resolved at once with the
  duplicate record, pending on the invoker (\<open>Running\<close>, under the keys of the call),
  rejected because the invoker rejected, or settled with the result of the invoker, the
  promises of the actions it freed and the records of the actions it removed.
\<close>

datatype task =
    Duplicated ActionOutput
  | Running GroupKey
  | Rejected error
  | Settled ActionOutput "task list" "ActionOutput list"

text \<open>
  The synchronous part of \<^verbatim>\<open>runActionPromiseWrapper\<close>: the registry check, and the
  call of \<^verbatim>\<open>runActionFn\<close> that starts the invocation.
\<close>

definition launch :: "GroupKey \<Rightarrow> GroupKey list \<Rightarrow> task \<times> GroupKey list" where
  "launch k registry =
     (case beganTask k registry of
        (False, registry') \<Rightarrow> (Duplicated (duplicateRecord k), registry')
      | (True, registry') \<Rightarrow> (Running k, registry'))"

fun launchAll :: "GroupKey list \<Rightarrow> GroupKey list \<Rightarrow> task list \<times> GroupKey list" where
  "launchAll [] registry = ([], registry)"
| "launchAll (k # ks) registry =
     (case launch k registry of
        (t, registry1) \<Rightarrow>
          (case launchAll ks registry1 of (ts, registry2) \<Rightarrow> (t # ts, registry2)))"

text \<open>The state the coordinator mutates: the store, the pending array, the registry.\<close>

record sched =
  heap :: "nat \<Rightarrow> WorkItem"
  blockedActions :: "nat option list"
  begun :: "GroupKey list"

text \<open>
  The \<^verbatim>\<open>then\<close> callback of \<^verbatim>\<open>runActionPromiseWrapper\<close>, run when the invocation
  under keys \<open>k\<close> has finished. It runs to its \<^verbatim>\<open>await\<close> without interruption:
  the cascade for a result whose exit code is not 0, the reduce that frees actions, and
  the launch of every freed action under the keys of this call with the project
  replaced.
\<close>

definition settle :: "(GroupKey \<Rightarrow> error + ActionOutput) \<Rightarrow> GroupKey \<Rightarrow> sched \<Rightarrow> task \<times> sched" where
  "settle runActionFn k st =
     (case runActionFn k of
        Inl e \<Rightarrow> (Rejected e, st)
      | Inr res \<Rightarrow>
          (case (if exitCode res = Some 0 then ([], blockedActions st)
                 else findActionsToSkipAfterFailure (project res) (heap st) (blockedActions st)) of
             (removedBlockedActions, blocked1) \<Rightarrow>
               (case freeBlocked (project k) (heap st) blocked1 of
                  (h, blocked2, actionsFreedtoRun) \<Rightarrow>
                    (case launchAll (map (\<lambda>a. k\<lparr>project := project (keys (h a))\<rparr>) actionsFreedtoRun)
                            (begun st) of
                       (children, registry) \<Rightarrow>
                         (Settled res children removedBlockedActions,
                          \<lparr>heap = h, blockedActions = blocked2, begun = registry\<rparr>)))))"

section \<open>Completion order\<close>

text \<open>
  Invocations finish in an order the program does not control. A schedule is a list of
  numbers: at every completion the next number picks, among the invocations that are
  running (counted in launch order), the one that finishes; when the list is used up
  the first one running finishes.
\<close>

fun countRunning :: "task \<Rightarrow> nat" and countRunnings :: "task list \<Rightarrow> nat" where
  "countRunning (Duplicated out) = 0"
| "countRunning (Running k) = 1"
| "countRunning (Rejected e) = 0"
| "countRunning (Settled res children removed) = countRunnings children"
| "countRunnings [] = 0"
| "countRunnings (t # ts) = countRunning t + countRunnings ts"

fun stepTask :: "(GroupKey \<Rightarrow> error + ActionOutput) \<Rightarrow> nat \<Rightarrow> task \<Rightarrow> sched \<Rightarrow> task \<times> sched"
  and stepTasks :: "(GroupKey \<Rightarrow> error + ActionOutput) \<Rightarrow> nat \<Rightarrow> task list \<Rightarrow> sched \<Rightarrow> task list \<times> sched"
  where
  "stepTask runActionFn n (Duplicated out) st = (Duplicated out, st)"
| "stepTask runActionFn n (Running k) st = settle runActionFn k st"
| "stepTask runActionFn n (Rejected e) st = (Rejected e, st)"
| "stepTask runActionFn n (Settled res children removed) st =
     (case stepTasks runActionFn n children st of
        (children', st') \<Rightarrow> (Settled res children' removed, st'))"
| "stepTasks runActionFn n [] st = ([], st)"
| "stepTasks runActionFn n (t # ts) st =
     (if n < countRunning t
      then (case stepTask runActionFn n t st of (t', st') \<Rightarrow> (t' # ts, st'))
      else (case stepTasks runActionFn (n - countRunning t) ts st of (ts', st') \<Rightarrow> (t # ts', st')))"

text \<open>
  A completion turns one running invocation into a settled one; every invocation it
  starts takes one action out of the pending array. So the invocations still running
  and the pending actions, counted together, get fewer at every completion.
\<close>

lemma skip_punched_total:
  "punched (snd (findActionsToSkipAfterFailure f h b)) b"
  "punched (snd (skipEach f h s b)) b"
proof (induction f h b and f h s b rule: findActionsToSkipAfterFailure_skipEach.induct)
  case (1 failedProject h blocked)
  then show ?case by simp
next
  case (2 failedProject h blocked)
  then show ?case by (simp add: punched_refl)
next
  case (3 failedProject h a rest blocked)
  obtain sk b1 where r1: "findActionsToSkipAfterFailure (project (keys (h a))) h (deleteRef a blocked) = (sk, b1)"
    by (cases "findActionsToSkipAfterFailure (project (keys (h a))) h (deleteRef a blocked)")
  obtain ot b2 where r2: "skipEach failedProject h rest b1 = (ot, b2)"
    by (cases "skipEach failedProject h rest b1")
  have p1: "punched b1 (deleteRef a blocked)" using "3.IH"(1) r1 by simp
  have p2: "punched b2 b1" using "3.IH"(2)[OF r1[symmetric]] r2 by simp
  show ?case
    using r1 r2 p1 p2
    by (auto intro: punched_trans punched_deleteRef)
qed

lemma freeBlocked_count:
  "freeBlocked p h b = (h', b', freed) \<Longrightarrow> length (present b') + length freed = length (present b)"
proof (induction b arbitrary: h h' b' freed)
  case Nil
  then show ?case by simp
next
  case (Cons x b)
  show ?case
  proof (cases x)
    case None
    then show ?thesis using Cons by (auto split: prod.splits)
  next
    case (Some a)
    then show ?thesis using Cons by (auto split: prod.splits if_splits)
  qed
qed

lemma launch_count: "launch k reg = (t, reg') \<Longrightarrow> countRunning t \<le> 1"
  by (auto simp: launch_def beganTask_def split: if_splits)

lemma launchAll_count: "launchAll ks reg = (ts, reg') \<Longrightarrow> countRunnings ts \<le> length ks"
proof (induction ks arbitrary: reg ts reg')
  case Nil
  then show ?case by simp
next
  case (Cons k ks)
  then show ?case
    by (fastforce split: prod.splits dest: launch_count)
qed

lemma settle_count:
  assumes "settle f k st = (t, st')"
  shows "countRunning t + length (present (blockedActions st')) \<le> length (present (blockedActions st))"
proof (cases "f k")
  case (Inl e)
  then show ?thesis using assms by (auto simp: settle_def)
next
  case (Inr res)
  obtain removed b1 where r1:
    "(if exitCode res = Some 0 then ([], blockedActions st)
      else findActionsToSkipAfterFailure (project res) (heap st) (blockedActions st)) = (removed, b1)"
    by (cases "(if exitCode res = Some 0 then ([], blockedActions st)
      else findActionsToSkipAfterFailure (project res) (heap st) (blockedActions st))")
  obtain h b2 freed where r2: "freeBlocked (project k) (heap st) b1 = (h, b2, freed)"
    by (cases "freeBlocked (project k) (heap st) b1")
  obtain children reg where r3:
    "launchAll (map (\<lambda>a. k\<lparr>project := project (keys (h a))\<rparr>) freed) (begun st) = (children, reg)"
    by (cases "launchAll (map (\<lambda>a. k\<lparr>project := project (keys (h a))\<rparr>) freed) (begun st)")
  have p: "punched b1 (blockedActions st)"
    using r1 skip_punched_total(1)[of "project res" "heap st" "blockedActions st"]
    by (auto simp: punched_refl split: if_splits)
  have t: "t = Settled res children removed" and s: "blockedActions st' = b2"
    using assms Inr r1 r2 r3 by (auto simp: settle_def)
  show ?thesis
    using punched_present_le[OF p] freeBlocked_count[OF r2] launchAll_count[OF r3] t s by simp
qed

lemma step_count:
  "n < countRunning t \<Longrightarrow> stepTask f n t st = (t', st') \<Longrightarrow>
     countRunning t' + length (present (blockedActions st')) < countRunning t + length (present (blockedActions st))"
  "n < countRunnings ts \<Longrightarrow> stepTasks f n ts st = (ts', st') \<Longrightarrow>
     countRunnings ts' + length (present (blockedActions st')) < countRunnings ts + length (present (blockedActions st))"
proof (induction f n t st and f n ts st arbitrary: t' st' and ts' st' rule: stepTask_stepTasks.induct)
  case (1 runActionFn n out st)
  then show ?case by simp
next
  case (2 runActionFn n k st)
  then show ?case using settle_count[of runActionFn k st t' st'] by simp
next
  case (3 runActionFn n e st)
  then show ?case by simp
next
  case (4 runActionFn n res children removed st)
  then show ?case by (auto split: prod.splits)
next
  case (5 runActionFn n st)
  then show ?case by simp
next
  case (6 runActionFn n t ts st)
  show ?case
  proof (cases "n < countRunning t")
    case True
    then show ?thesis using 6 by (fastforce split: prod.splits)
  next
    case False
    then have "n - countRunning t < countRunnings ts" using "6.prems" by simp
    then show ?thesis using 6 False by (fastforce split: prod.splits)
  qed
qed

text \<open>
  The \<^verbatim>\<open>await Promise.all\<close> of one tier: completions happen, in the order of the
  schedule, until no invocation is running. The rest of the schedule is returned for the
  next tier.
\<close>

function runToCompletion ::
  "(GroupKey \<Rightarrow> error + ActionOutput) \<Rightarrow> nat list \<Rightarrow> task list \<Rightarrow> sched
     \<Rightarrow> task list \<times> sched \<times> nat list" where
  "runToCompletion runActionFn schedule ts st =
     (if countRunnings ts = 0 then (ts, st, schedule)
      else (case stepTasks runActionFn
                   (case schedule of [] \<Rightarrow> 0 | c # cs \<Rightarrow> c mod countRunnings ts) ts st of
              (ts', st') \<Rightarrow> runToCompletion runActionFn (tl schedule) ts' st'))"
  by pat_completeness auto

termination runToCompletion
proof (relation "measure (\<lambda>(f, schedule, ts, st). countRunnings ts + length (present (blockedActions st)))")
  show "wf (measure (\<lambda>(f, schedule, ts, st). countRunnings ts + length (present (blockedActions st))))"
    by (rule wf_measure)
next
  fix runActionFn :: "GroupKey \<Rightarrow> error + ActionOutput" and schedule :: "nat list"
    and ts :: "task list" and st :: sched and x ts' st'
  assume running: "countRunnings ts \<noteq> 0"
    and step: "(ts', st') =
      stepTasks runActionFn (case schedule of [] \<Rightarrow> 0 | c # cs \<Rightarrow> c mod countRunnings ts) ts st"
  have "(case schedule of [] \<Rightarrow> 0 | c # cs \<Rightarrow> c mod countRunnings ts) < countRunnings ts"
    using running by (cases schedule) auto
  from step_count(2)[OF this step[symmetric]]
  show "((runActionFn, tl schedule, ts', st'), (runActionFn, schedule, ts, st))
          \<in> measure (\<lambda>(f, schedule, ts, st). countRunnings ts + length (present (blockedActions st)))"
    by simp
qed

declare runToCompletion.simps [simp del]

text \<open>
  What a promise resolves to: \<^verbatim>\<open>[res, ...blockedActionsResult, ...removedBlockedActions]\<close>.
  \<^verbatim>\<open>Promise.all\<close> rejects when one of its promises does.
\<close>

fun outputsOf :: "task \<Rightarrow> ActionOutput list" and outputsOfAll :: "task list \<Rightarrow> ActionOutput list" where
  "outputsOf (Duplicated out) = [out]"
| "outputsOf (Running k) = []"
| "outputsOf (Rejected e) = []"
| "outputsOf (Settled res children removed) = res # outputsOfAll children @ removed"
| "outputsOfAll [] = []"
| "outputsOfAll (t # ts) = outputsOf t @ outputsOfAll ts"

fun rejectionOf :: "task \<Rightarrow> error option" and rejectionIn :: "task list \<Rightarrow> error option" where
  "rejectionOf (Duplicated out) = None"
| "rejectionOf (Running k) = None"
| "rejectionOf (Rejected e) = Some e"
| "rejectionOf (Settled res children removed) = rejectionIn children"
| "rejectionIn [] = None"
| "rejectionIn (t # ts) = (case rejectionOf t of Some e \<Rightarrow> Some e | None \<Rightarrow> rejectionIn ts)"

section \<open>The tiers\<close>

text \<open>\<^verbatim>\<open>action.priority ?? 0\<close>, the priority \<^verbatim>\<open>actions\<close> and \<^verbatim>\<open>getUniquePriorities\<close> read.\<close>

definition effectivePriority :: "WorkItem \<Rightarrow> int" where
  "effectivePriority a = (case priority a of None \<Rightarrow> 0 | Some p \<Rightarrow> p)"

text \<open>
  The older runner (\<^verbatim>\<open>runActions\<close> / \<^verbatim>\<open>runAction\<close> with \<^verbatim>\<open>currentPrio\<close>) reads
  \<^verbatim>\<open>action.priority ?? project.priority ?? 0\<close>.
\<close>

definition runnerPriority :: "Project \<Rightarrow> ProjectAction \<Rightarrow> int" where
  "runnerPriority p a =
     (case priority a of
        Some q \<Rightarrow> q
      | None \<Rightarrow> (case project_priority p of Some q \<Rightarrow> q | None \<Rightarrow> 0))"

text \<open>
  \<^verbatim>\<open>getUniquePriorities\<close>: a JavaScript Set iterates in insertion order, so the result
  is the list of first occurrences.
\<close>

definition getUniquePriorities :: "WorkItem list \<Rightarrow> int list" where
  "getUniquePriorities actionsToRun =
     foldl (\<lambda>carry a. if effectivePriority a \<in> set carry then carry else carry @ [effectivePriority a])
       [] actionsToRun"

text \<open>
  One round of the loop of \<^verbatim>\<open>actions\<close>: the filter reads the objects of
  \<^verbatim>\<open>projectsToRunActionIn\<close> (the first \<open>n\<close> addresses of the store) as they are
  when the round begins, every action it keeps is launched under its own keys, and the
  round waits for all promises.
\<close>

definition tierPass ::
  "(GroupKey \<Rightarrow> error + ActionOutput) \<Rightarrow> nat list \<Rightarrow> nat \<Rightarrow> int \<Rightarrow> sched \<Rightarrow> task list \<times> sched \<times> nat list" where
  "tierPass runActionFn schedule n p st =
     (case launchAll
             (map (\<lambda>a. keys (heap st a))
                (filter (\<lambda>a. effectivePriority (heap st a) = p \<and> needs (heap st a) = []) [0..<n]))
             (begun st) of
        (ts, registry) \<Rightarrow> runToCompletion runActionFn schedule ts (st\<lparr>begun := registry\<rparr>))"

fun runTiers ::
  "(GroupKey \<Rightarrow> error + ActionOutput) \<Rightarrow> nat list \<Rightarrow> nat \<Rightarrow> int list \<Rightarrow> sched \<Rightarrow> error + ActionOutput list" where
  "runTiers runActionFn schedule n [] st = Inr []"
| "runTiers runActionFn schedule n (p # ps) st =
     (case tierPass runActionFn schedule n p st of
        (ts, st', schedule') \<Rightarrow>
          (case rejectionIn ts of
             Some e \<Rightarrow> Inl e
           | None \<Rightarrow>
               (case runTiers runActionFn schedule' n ps st' of
                  Inl e \<Rightarrow> Inl e
                | Inr rest \<Rightarrow> Inr (outputsOfAll ts @ rest))))"

text \<open>
  The state \<^verbatim>\<open>actions\<close> starts from: the work items in the store,
  \<^verbatim>\<open>blockedProjects\<close> the references to those with needs, no key begun.
\<close>

definition initial :: "WorkItem list \<Rightarrow> sched" where
  "initial projectsToRunActionIn =
     \<lparr>heap = (\<lambda>a. projectsToRunActionIn ! a),
      blockedActions = map Some (filter (\<lambda>a. needs (projectsToRunActionIn ! a) \<noteq> [])
                                   [0..<length projectsToRunActionIn]),
      begun = []\<rparr>"

text \<open>\<^verbatim>\<open>actions\<close> from the work items on: the scheduler.\<close>

definition run ::
  "(GroupKey \<Rightarrow> error + ActionOutput) \<Rightarrow> nat list \<Rightarrow> WorkItem list \<Rightarrow> error + ActionOutput list" where
  "run runActionFn schedule projectsToRunActionIn =
     runTiers runActionFn schedule (length projectsToRunActionIn)
       (getUniquePriorities projectsToRunActionIn) (initial projectsToRunActionIn)"

text \<open>\<^verbatim>\<open>actions\<close>: selection, then the scheduler.\<close>

definition actions ::
  "(Config \<Rightarrow> string \<Rightarrow> string list) \<Rightarrow> nat \<Rightarrow> (GroupKey \<Rightarrow> error + ActionOutput) \<Rightarrow> nat list
     \<Rightarrow> Config \<Rightarrow> string \<Rightarrow> string \<Rightarrow> string list \<Rightarrow> error + ActionOutput list" where
  "actions topologicalSortActionGraph depth runActionFn schedule config actionToRun groupToRun projectsToRun =
     (case getProjectsToRunActionIn topologicalSortActionGraph depth config actionToRun groupToRun
             projectsToRun of
        Inl e \<Rightarrow> Inl e
      | Inr projectsToRunActionIn \<Rightarrow> run runActionFn schedule projectsToRunActionIn)"

section \<open>Fixtures\<close>

text \<open>
  A directory resolver and two child processes for the examples: one that always exits
  with 0, one that exits with 1 in the directory given and with 0 elsewhere.
\<close>

definition remoteDir :: "string \<Rightarrow> string \<Rightarrow> string" where
  "remoteDir base r = base @ r"

definition exits0 :: "string list \<Rightarrow> string \<Rightarrow> ChildProcessOutput" where
  "exits0 c d = \<lparr>child_stdout = Some [], child_stderr = Some [], child_exitCode = Some 0,
                child_signal = None\<rparr>"

definition exits1In :: "string \<Rightarrow> string list \<Rightarrow> string \<Rightarrow> ChildProcessOutput" where
  "exits1In failing c d =
     \<lparr>child_stdout = Some [], child_stderr = Some [],
      child_exitCode = (if d = failing then Some 1 else Some 0), child_signal = None\<rparr>"

text \<open>Two projects without dependencies: \<open>x\<close> of priority 5 declared before \<open>y\<close> of priority 0.\<close>

definition twoTiers :: Config where
  "twoTiers =
     \<lparr>cwd = ''/w/'', projects =
        [(''x'', \<lparr>remote = ''x'', project_priority = None, actions =
            [(''build'', \<lparr>priority = Some 5, needs = [], groups = [(''*'', [''make''])]\<rparr>)]\<rparr>),
         (''y'', \<lparr>remote = ''y'', project_priority = None, actions =
            [(''build'', \<lparr>priority = Some 0, needs = [], groups = [(''*'', [''make''])]\<rparr>)]\<rparr>)]\<rparr>"

text \<open>One project with a default priority and an action without a priority of its own.\<close>

definition defaultPriority :: Config where
  "defaultPriority =
     \<lparr>cwd = ''/w/'', projects =
        [(''p'', \<lparr>remote = ''p'', project_priority = Some 5, actions =
            [(''build'', \<lparr>priority = None, needs = [], groups = [(''*'', [''make''])]\<rparr>)]\<rparr>)]\<rparr>"

text \<open>
  \<open>A\<close> needs \<open>B\<close> (priority 1) and \<open>C\<close> (priority 2), in this order; both need \<open>D\<close>, which
  has no priority of its own.
\<close>

definition diamond :: Config where
  "diamond =
     \<lparr>cwd = ''/w/'', projects =
        [(''A'', \<lparr>remote = ''A'', project_priority = None, actions =
            [(''build'', \<lparr>priority = None, needs = [''B'', ''C''], groups = [(''*'', [''make''])]\<rparr>)]\<rparr>),
         (''B'', \<lparr>remote = ''B'', project_priority = None, actions =
            [(''build'', \<lparr>priority = Some 1, needs = [''D''], groups = [(''*'', [''make''])]\<rparr>)]\<rparr>),
         (''C'', \<lparr>remote = ''C'', project_priority = None, actions =
            [(''build'', \<lparr>priority = Some 2, needs = [''D''], groups = [(''*'', [''make''])]\<rparr>)]\<rparr>),
         (''D'', \<lparr>remote = ''D'', project_priority = None, actions =
            [(''build'', \<lparr>priority = None, needs = [], groups = [(''*'', [''make''])]\<rparr>)]\<rparr>)]\<rparr>"

text \<open>
  \<open>A\<close> needs a project that is not declared; \<open>A\<close> needs \<open>B\<close>, which declares another
  action only.
\<close>

definition ghostNeed :: Config where
  "ghostNeed =
     \<lparr>cwd = ''/w/'', projects =
        [(''A'', \<lparr>remote = ''A'', project_priority = None, actions =
            [(''build'', \<lparr>priority = None, needs = [''ghost''], groups = [(''*'', [''make''])]\<rparr>)]\<rparr>)]\<rparr>"

definition noAction :: Config where
  "noAction =
     \<lparr>cwd = ''/w/'', projects =
        [(''A'', \<lparr>remote = ''A'', project_priority = None, actions =
            [(''build'', \<lparr>priority = None, needs = [''B''], groups = [(''*'', [''make''])]\<rparr>)]\<rparr>),
         (''B'', \<lparr>remote = ''B'', project_priority = None, actions =
            [(''test'', \<lparr>priority = None, needs = [], groups = [(''*'', [''make''])]\<rparr>)]\<rparr>)]\<rparr>"

text \<open>
  \<open>A\<close> needs \<open>B\<close>, \<open>B\<close> needs \<open>C\<close>; \<open>B\<close> has the group \<open>*\<close> only, \<open>A\<close> and \<open>C\<close> have
  \<open>g\<close>. In the longer chain \<open>B\<close> and \<open>C\<close> have \<open>*\<close> only and \<open>C\<close> needs \<open>D\<close>.
\<close>

definition fallback :: Config where
  "fallback =
     \<lparr>cwd = ''/w/'', projects =
        [(''A'', \<lparr>remote = ''A'', project_priority = None, actions =
            [(''build'', \<lparr>priority = None, needs = [''B''], groups = [(''g'', [''make'', ''a''])]\<rparr>)]\<rparr>),
         (''B'', \<lparr>remote = ''B'', project_priority = None, actions =
            [(''build'', \<lparr>priority = None, needs = [''C''], groups = [(''*'', [''make'', ''b''])]\<rparr>)]\<rparr>),
         (''C'', \<lparr>remote = ''C'', project_priority = None, actions =
            [(''build'', \<lparr>priority = None, needs = [], groups = [(''g'', [''make'', ''c''])]\<rparr>)]\<rparr>)]\<rparr>"

definition fallbackChain :: Config where
  "fallbackChain =
     \<lparr>cwd = ''/w/'', projects =
        [(''A'', \<lparr>remote = ''A'', project_priority = None, actions =
            [(''build'', \<lparr>priority = None, needs = [''B''], groups = [(''g'', [''make'', ''a''])]\<rparr>)]\<rparr>),
         (''B'', \<lparr>remote = ''B'', project_priority = None, actions =
            [(''build'', \<lparr>priority = None, needs = [''C''], groups = [(''*'', [''make'', ''b''])]\<rparr>)]\<rparr>),
         (''C'', \<lparr>remote = ''C'', project_priority = None, actions =
            [(''build'', \<lparr>priority = None, needs = [''D''], groups = [(''*'', [''make'', ''c''])]\<rparr>)]\<rparr>),
         (''D'', \<lparr>remote = ''D'', project_priority = None, actions =
            [(''build'', \<lparr>priority = None, needs = [], groups = [(''g'', [''make'', ''d''])]\<rparr>)]\<rparr>)]\<rparr>"

text \<open>
  \<open>A\<close> of priority 0 and \<open>B\<close> of priority 5, which needs \<open>A\<close>; the work items the selection
  returns for them, and the records of their run when every process exits with 0.
\<close>

definition laterTier :: Config where
  "laterTier =
     \<lparr>cwd = ''/w/'', projects =
        [(''A'', \<lparr>remote = ''A'', project_priority = None, actions =
            [(''build'', \<lparr>priority = Some 0, needs = [], groups = [(''*'', [''make'', ''a''])]\<rparr>)]\<rparr>),
         (''B'', \<lparr>remote = ''B'', project_priority = None, actions =
            [(''build'', \<lparr>priority = Some 5, needs = [''A''], groups = [(''*'', [''make'', ''b''])]\<rparr>)]\<rparr>)]\<rparr>"

definition laterTierItems :: "WorkItem list" where
  "laterTierItems =
     [\<lparr>priority = Some 0, needs = [], groups = [(''*'', [''make'', ''a''])],
       keys = \<lparr>project = ''A'', action = ''build'', group = ''*''\<rparr>\<rparr>,
      \<lparr>priority = Some 5, needs = [''A''], groups = [(''*'', [''make'', ''b''])],
       keys = \<lparr>project = ''B'', action = ''build'', group = ''*''\<rparr>\<rparr>]"

definition laterTierRecords :: "ActionOutput list" where
  "laterTierRecords =
     [\<lparr>project = ''A'', action = ''build'', group = ''*'', stdout = Some [], stderr = Some [],
       exitCode = Some 0, signal = None, dir = Some ''/w/A'', cmd = Some [''make'', ''a''],
       wasSkippedBy = None, wasSkippedDuplicated = False\<rparr>,
      \<lparr>project = ''B'', action = ''build'', group = ''*'', stdout = Some [], stderr = Some [],
       exitCode = Some 0, signal = None, dir = Some ''/w/B'', cmd = Some [''make'', ''b''],
       wasSkippedBy = None, wasSkippedDuplicated = False\<rparr>,
      \<lparr>project = ''B'', action = ''build'', group = ''*'', stdout = None, stderr = None,
       exitCode = None, signal = None, dir = None, cmd = None,
       wasSkippedBy = None, wasSkippedDuplicated = True\<rparr>]"








section \<open>Properties of the selection\<close>

lemmas selection_defs =
  getProjectsToRunActionIn_def resolveDependenciesForActions_def discovered_def directActions_def
  projectHasGroup_def hasGroup_def mkItem_def uniqBy_def rewire_def neededItem_def configNeeds_def

lemmas run_defs =
  run_def getUniquePriorities_def effectivePriority_def initial_def tierPass_def launch_def
  beganTask_def runToCompletion.simps settle_def duplicateRecord_def skipRecord_def
  actionsToSkip_def dropNeed_def runAction_def remoteDir_def

lemma uniqByFrom_distinct_aux:
  "distinct (map f (uniqByFrom seen f xs)) \<and> set (map f (uniqByFrom seen f xs)) \<inter> set seen = {}"
  by (induction seen f xs rule: uniqByFrom.induct) auto


lemma uniqByFrom_first:
  "x \<in> set (uniqByFrom seen f xs) \<Longrightarrow> List.find (\<lambda>y. f y = f x) xs = Some x \<and> f x \<notin> set seen"
proof (induction seen f xs rule: uniqByFrom.induct)
  case (1 seen f)
  then show ?case by simp
next
  case (2 seen f y ys)
  show ?case
  proof (cases "f y \<in> set seen")
    case True
    then show ?thesis using 2 by auto
  next
    case False
    then show ?thesis using 2 by (cases "x = y") auto
  qed
qed

lemma uniqByFrom_keys: "f ` set (uniqByFrom seen f xs) = f ` set xs - set seen"
  by (induction seen f xs rule: uniqByFrom.induct) auto

lemma rewire_same:
  "map keys (rewire config act items n) = map keys items"
  "map priority (rewire config act items n) = map priority items"
  "map groups (rewire config act items n) = map groups items"
  by (simp_all add: rewire_def)

lemma foldl_rewire_same:
  "map keys (foldl (rewire config act) items ns) = map keys items"
  "map priority (foldl (rewire config act) items ns) = map priority items"
  "map groups (foldl (rewire config act) items ns) = map groups items"
  by (induction ns arbitrary: items) (simp_all add: rewire_same)

text \<open>
  The items the closure visits: \<open>needed config a b\<close> when \<open>b\<close> is the item built for one of
  the needs of \<open>a\<close>. An item is dangling when one of its needs names a project that is
  not declared, or one that does not declare the action.
\<close>

definition needed :: "Config \<Rightarrow> WorkItem \<Rightarrow> WorkItem \<Rightarrow> bool" where
  "needed config a b =
     (\<exists>n p. n \<in> set (needs a) \<and> map_of (projects config) n = Some p \<and>
            b = neededItem a n (map_of (Project.actions p) (action (keys a))))"

definition dangling :: "Config \<Rightarrow> WorkItem \<Rightarrow> bool" where
  "dangling config a =
     (\<exists>n \<in> set (needs a).
        (case map_of (projects config) n of
           None \<Rightarrow> True
         | Some p \<Rightarrow> map_of (Project.actions p) (action (keys a)) = None))"

lemma closure_fold_Inl:
  "foldl (\<lambda>carry need. case carry of Inl e \<Rightarrow> Inl e | Inr c \<Rightarrow> F c need) (Inl e) ns = Inl e"
  by (induction ns) simp_all

lemma closure_fold_fails:
  "n \<in> set ns \<Longrightarrow> (\<And>c. isl (F c n)) \<Longrightarrow>
     isl (foldl (\<lambda>carry need. case carry of Inl e \<Rightarrow> Inl e | Inr c \<Rightarrow> F c need) carry ns)"
proof (induction ns arbitrary: carry)
  case Nil
  then show ?case by simp
next
  case (Cons m ns)
  show ?case
  proof (cases "m = n")
    case True
    show ?thesis
    proof (cases carry)
      case (Inl e)
      then show ?thesis by (simp add: closure_fold_Inl)
    next
      case (Inr c)
      obtain e where "F c n = Inl e" using Cons.prems(2)[of c] by (cases "F c n") auto
      then show ?thesis using Inr True by (simp add: closure_fold_Inl)
    qed
  next
    case False
    then have "n \<in> set ns" using Cons.prems(1) by simp
    from Cons.IH[OF this Cons.prems(2)] show ?thesis by simp
  qed
qed

lemma resolve_undeclared:
  assumes "n \<in> set (needs a)" and "map_of (projects config) n = None"
  shows "isl (resolveProjectDependencies depth config a)"
proof (cases depth)
  case 0
  then show ?thesis by simp
next
  case (Suc d)
  have ne: "needs a \<noteq> []" using assms(1) by auto
  show ?thesis
    unfolding Suc resolveProjectDependencies.simps using ne
    by (simp add: closure_fold_fails[OF assms(1)] assms(2))
qed

lemma resolve_missing_action:
  "n \<in> set (needs a) \<Longrightarrow> map_of (projects config) n = Some p \<Longrightarrow>
   map_of (Project.actions p) (action (keys a)) = None \<Longrightarrow>
   isl (resolveProjectDependencies depth config a)"
proof (induction depth arbitrary: a)
  case 0
  then show ?case by simp
next
  case (Suc d)
  have ne: "needs a \<noteq> []" using Suc.prems(1) by auto
  have "isl (resolveProjectDependencies d config (neededItem a n None))"
    using Suc.IH[of "neededItem a n None"] Suc.prems by (simp add: neededItem_def)
  then obtain e where "resolveProjectDependencies d config (neededItem a n None) = Inl e"
    by (cases "resolveProjectDependencies d config (neededItem a n None)") auto
  then show ?case
    unfolding resolveProjectDependencies.simps using ne Suc.prems
    by (simp add: closure_fold_fails[OF Suc.prems(1)])
qed

lemma resolve_dangling:
  assumes "dangling config a"
  shows "isl (resolveProjectDependencies depth config a)"
proof -
  obtain n where n: "n \<in> set (needs a)"
    and bad: "case map_of (projects config) n of
                None \<Rightarrow> True
              | Some p \<Rightarrow> map_of (Project.actions p) (action (keys a)) = None"
    using assms unfolding dangling_def by blast
  show ?thesis
  proof (cases "map_of (projects config) n")
    case None
    then show ?thesis using n by (rule resolve_undeclared[rotated])
  next
    case (Some p)
    then show ?thesis using n bad by (auto intro: resolve_missing_action)
  qed
qed

lemma resolve_needed:
  assumes "needed config a b" and "\<And>d. isl (resolveProjectDependencies d config b)"
  shows "isl (resolveProjectDependencies depth config a)"
proof (cases depth)
  case 0
  then show ?thesis by simp
next
  case (Suc d)
  obtain n p where n: "n \<in> set (needs a)" and p: "map_of (projects config) n = Some p"
    and b: "b = neededItem a n (map_of (Project.actions p) (action (keys a)))"
    using assms(1) unfolding needed_def by blast
  have ne: "needs a \<noteq> []" using n by auto
  obtain e where "resolveProjectDependencies d config b = Inl e"
    using assms(2)[of d] by (cases "resolveProjectDependencies d config b") auto
  then show ?thesis
    unfolding Suc resolveProjectDependencies.simps using ne p b
    by (simp add: closure_fold_fails[OF n])
qed

lemma resolve_reaches_dangling:
  "(needed config)\<^sup>*\<^sup>* a b \<Longrightarrow> dangling config b \<Longrightarrow> isl (resolveProjectDependencies depth config a)"
proof (induction arbitrary: depth rule: converse_rtranclp_induct)
  case base
  then show ?case by (rule resolve_dangling)
next
  case (step y z)
  show ?case by (rule resolve_needed[OF step.hyps(1)]) (rule step.IH[OF step.prems])
qed

lemma resolveAll_fails:
  "a \<in> set as \<Longrightarrow> isl (resolveProjectDependencies depth config a) \<Longrightarrow> isl (resolveAll depth config as)"
  by (induction as) (auto split: sum.splits)

lemma directActions_ignores:
  assumes "\<forall>p. (x, p) \<in> set (projects config) \<longrightarrow> map_of (Project.actions p) act = None"
  shows "directActions config act g (x # ps) = directActions config act g ps"
proof -
  have "filter (\<lambda>(projectName, p). projectName \<in> set (x # ps))
         (filter (\<lambda>(projectName, p). projectHasGroup p act g \<or> projectHasGroup p act ''*'') (projects config))
      = filter (\<lambda>(projectName, p). projectName \<in> set ps)
         (filter (\<lambda>(projectName, p). projectHasGroup p act g \<or> projectHasGroup p act ''*'') (projects config))"
    using assms by (intro filter_cong refl) (auto simp: projectHasGroup_def)
  then show ?thesis by (simp add: directActions_def)
qed

text \<open>
  An item as the closure builds it for a declared project: its needs and groups are those
  the configuration gives the action of its project.
\<close>

definition declaredItem :: "Config \<Rightarrow> string \<Rightarrow> WorkItem \<Rightarrow> bool" where
  "declaredItem config act a =
     (action (keys a) = act \<and>
      (\<exists>p pa. map_of (projects config) (project (keys a)) = Some p \<and>
              map_of (Project.actions p) act = Some pa \<and>
              needs a = needs pa \<and> groups a = groups pa))"

lemma closure_fold_inv:
  assumes "foldl (\<lambda>carry need. case carry of Inl e \<Rightarrow> Inl e | Inr c \<Rightarrow> F c need) (Inr c0) ns = Inr r"
    and "Q c0"
    and "\<And>c n c'. n \<in> set ns \<Longrightarrow> Q c \<Longrightarrow> F c n = Inr c' \<Longrightarrow> Q c'"
  shows "Q r"
  using assms
proof (induction ns arbitrary: c0)
  case Nil
  then show ?case by simp
next
  case (Cons m ns)
  show ?case
  proof (cases "F c0 m")
    case (Inl e)
    then show ?thesis using Cons.prems(1) by (simp add: closure_fold_Inl)
  next
    case (Inr c1)
    have q: "Q c1" using Cons.prems(3)[of m c0 c1] Cons.prems(2) Inr by simp
    have f: "foldl (\<lambda>carry need. case carry of Inl e \<Rightarrow> Inl e | Inr c \<Rightarrow> F c need) (Inr c1) ns = Inr r"
      using Cons.prems(1) Inr by simp
    show ?thesis
      by (rule Cons.IH[OF f q]) (use Cons.prems(3) in auto)
  qed
qed

lemma directActions_mem:
  assumes "a \<in> set (directActions config act g ps)"
  shows "\<exists>name p pa. (name, p) \<in> set (projects config) \<and> name \<in> set ps \<and>
      map_of (Project.actions p) act = Some pa \<and>
      a = mkItem \<lparr>project = name, action = act, group = (if hasGroup pa g then g else ''*'')\<rparr> pa"
proof -
  let ?f = "\<lambda>(projectName, p).
         (case map_of (Project.actions p) act of
            None \<Rightarrow> []
          | Some pa \<Rightarrow>
              [mkItem \<lparr>project = projectName, action = act,
                       group = (if hasGroup pa g then g else ''*'')\<rparr> pa])"
  let ?xs = "filter (\<lambda>(projectName, p). projectName \<in> set ps)
         (filter (\<lambda>(projectName, p). projectHasGroup p act g \<or> projectHasGroup p act ''*'')
            (projects config))"
  have "a \<in> set (concat (map ?f ?xs))"
    using assms unfolding directActions_def .
  then obtain e where ein: "e \<in> set ?xs" and ain: "a \<in> set (?f e)"
    unfolding set_concat set_map by blast
  have e: "e \<in> set (projects config)" "fst e \<in> set ps"
    using ein by (auto simp: case_prod_beta)
  have a: "a \<in> set (case map_of (Project.actions (snd e)) act of
            None \<Rightarrow> []
          | Some pa \<Rightarrow>
              [mkItem \<lparr>project = fst e, action = act,
                       group = (if hasGroup pa g then g else ''*'')\<rparr> pa])"
    using ain by (simp add: case_prod_beta)
  show ?thesis
  proof (cases "map_of (Project.actions (snd e)) act")
    case None
    then show ?thesis using a by simp
  next
    case (Some pa)
    then have "a = mkItem \<lparr>project = fst e, action = act, group = (if hasGroup pa g then g else ''*'')\<rparr> pa"
      using a by simp
    moreover have "(fst e, snd e) \<in> set (projects config)" using e by simp
    ultimately show ?thesis using e(2) Some by blast
  qed
qed

lemma directActions_declared:
  assumes "distinct (map fst (projects config))" and "a \<in> set (directActions config act g ps)"
  shows "declaredItem config act a"
proof -
  obtain name p pa where e: "(name, p) \<in> set (projects config)" and pa: "map_of (Project.actions p) act = Some pa"
    and a: "a = mkItem \<lparr>project = name, action = act, group = (if hasGroup pa g then g else ''*'')\<rparr> pa"
    using directActions_mem[OF assms(2)] by blast
  have "map_of (projects config) name = Some p"
    using assms(1) e by simp
  then show ?thesis using pa a by (simp add: declaredItem_def mkItem_def)
qed

lemma neededItem_declared:
  assumes "declaredItem config act a" and "map_of (projects config) n = Some p"
    and "map_of (Project.actions p) act = Some pa"
  shows "declaredItem config act (neededItem a n (Some pa))"
  using assms by (simp add: declaredItem_def neededItem_def)

lemma resolve_declared:
  "declaredItem config act a \<Longrightarrow> resolveProjectDependencies depth config a = Inr r \<Longrightarrow>
     \<forall>b \<in> set r. declaredItem config act b"
proof (induction depth arbitrary: a r)
  case 0
  then show ?case by simp
next
  case (Suc d)
  show ?case
  proof (cases "needs a = []")
    case True
    then show ?thesis using Suc.prems by auto
  next
    case False
    let ?F = "\<lambda>c need. case map_of (projects config) need of
                    None \<Rightarrow> Inl TypeError
                  | Some p \<Rightarrow>
                      (case resolveProjectDependencies d config
                              (neededItem a need (map_of (Project.actions p) (action (keys a)))) of
                         Inl e \<Rightarrow> Inl e
                       | Inr r \<Rightarrow> Inr (a # r @ tl c))"
    have f: "foldl (\<lambda>carry need. case carry of Inl e \<Rightarrow> Inl e | Inr c \<Rightarrow> ?F c need) (Inr []) (needs a) = Inr r"
      using Suc.prems(2) False by simp
    have act: "action (keys a) = act" using Suc.prems(1) by (simp add: declaredItem_def)
    show ?thesis
    proof (rule closure_fold_inv[OF f, where Q="\<lambda>c. \<forall>b \<in> set c. declaredItem config act b"])
      show "\<forall>b \<in> set []. declaredItem config act b" by simp
    next
      fix c n c'
      assume n: "n \<in> set (needs a)" and q: "\<forall>b \<in> set c. declaredItem config act b"
        and s: "?F c n = Inr c'"
      obtain p where p: "map_of (projects config) n = Some p"
        using s by (cases "map_of (projects config) n") auto
      obtain r' where r': "resolveProjectDependencies d config
                              (neededItem a n (map_of (Project.actions p) (action (keys a)))) = Inr r'"
        and c': "c' = a # r' @ tl c"
        using s p by (auto split: sum.splits)
      have "map_of (Project.actions p) act \<noteq> None"
      proof
        assume none: "map_of (Project.actions p) act = None"
        have "isl (resolveProjectDependencies d config (neededItem a n None))"
          by (rule resolve_missing_action[where n=n and p=p])
             (use n p none act in \<open>auto simp: neededItem_def\<close>)
        then show False using r' none act by simp
      qed
      then obtain pa where pa: "map_of (Project.actions p) act = Some pa" by auto
      have "declaredItem config act (neededItem a n (Some pa))"
        by (rule neededItem_declared[OF Suc.prems(1) p pa])
      from Suc.IH[OF this] r' pa act have "\<forall>b \<in> set r'. declaredItem config act b" by simp
      then show "\<forall>b \<in> set c'. declaredItem config act b"
        using c' q Suc.prems(1) by (cases c) auto
    qed
  qed
qed

lemma resolveAll_declared:
  "\<forall>a \<in> set as. declaredItem config act a \<Longrightarrow> resolveAll depth config as = Inr r \<Longrightarrow>
     \<forall>b \<in> set r. declaredItem config act b"
proof (induction as arbitrary: r)
  case Nil
  then show ?case by simp
next
  case (Cons a as)
  obtain r1 r2 where r1: "resolveProjectDependencies depth config a = Inr r1"
    and r2: "resolveAll depth config as = Inr r2" and r: "r = r1 @ r2"
    using Cons.prems(2) by (auto split: sum.splits)
  have "\<forall>b \<in> set r1. declaredItem config act b"
    using resolve_declared[OF _ r1] Cons.prems(1) by simp
  moreover have "\<forall>b \<in> set r2. declaredItem config act b"
    using Cons.IH[OF _ r2] Cons.prems(1) by simp
  ultimately show ?case using r by auto
qed


text \<open>
  \<open>supports config act g name\<close>: the project is declared and its action has group \<open>g\<close>.
  \<open>needsFollow\<close> holds of a list in which the needs of every project stand after it: the
  reversed topological order is such a list.
\<close>

definition supports :: "Config \<Rightarrow> string \<Rightarrow> string \<Rightarrow> string \<Rightarrow> bool" where
  "supports config act g name =
     (case map_of (projects config) name of None \<Rightarrow> False | Some p \<Rightarrow> projectHasGroup p act g)"

fun needsFollow :: "Config \<Rightarrow> string \<Rightarrow> string list \<Rightarrow> bool" where
  "needsFollow config act [] = True"
| "needsFollow config act (x # rest) =
     (set (configNeeds config act x) \<subseteq> set rest \<and> needsFollow config act rest)"

text \<open>The rebinding of the group, as a function of the item.\<close>

definition rebound :: "Config \<Rightarrow> string \<Rightarrow> string \<Rightarrow> WorkItem \<Rightarrow> WorkItem" where
  "rebound config act g a =
     a\<lparr>keys := (keys a)\<lparr>group := (if supports config act g (project (keys a)) then g else ''*'')\<rparr>\<rparr>"

lemma rebindGroups_map:
  "rebindGroups config g act xs = Inr ys \<Longrightarrow> ys = map (rebound config act g) xs"
proof (induction xs arbitrary: ys)
  case Nil
  then show ?case by simp
next
  case (Cons a xs)
  obtain p where p: "map_of (projects config) (project (keys a)) = Some p"
    using Cons.prems by (cases "map_of (projects config) (project (keys a))") simp_all
  obtain rs where rs: "rebindGroups config g act xs = Inr rs"
    using Cons.prems p by (cases "rebindGroups config g act xs") simp_all
  have "ys = a\<lparr>keys := (keys a)\<lparr>group :=
                      (if projectHasGroup p act g then g else ''*'')\<rparr>\<rparr> # rs"
    using Cons.prems p rs by simp
  moreover have "rebound config act g a = a\<lparr>keys := (keys a)\<lparr>group :=
                      (if projectHasGroup p act g then g else ''*'')\<rparr>\<rparr>"
    using p by (simp add: rebound_def supports_def)
  ultimately show ?case using Cons.IH[OF rs] by simp
qed

lemma rebound_declared: "declaredItem config act a \<Longrightarrow> declaredItem config act (rebound config act g a)"
  by (simp add: declaredItem_def rebound_def)

lemma uniqByFrom_subset: "set (uniqByFrom seen f xs) \<subseteq> set xs"
  by (induction seen f xs rule: uniqByFrom.induct) auto

lemma withoutGroup_filter:
  "withoutGroup config act g L = Inr N \<Longrightarrow> N = filter (\<lambda>n. \<not> supports config act g n) L"
proof (induction L arbitrary: N)
  case Nil
  then show ?case by simp
next
  case (Cons x L)
  obtain p where p: "map_of (projects config) x = Some p"
    using Cons.prems by (cases "map_of (projects config) x") simp_all
  obtain ns where ns: "withoutGroup config act g L = Inr ns"
    using Cons.prems p by (cases "withoutGroup config act g L") simp_all
  have "N = (if projectHasGroup p act g then ns else x # ns)"
    using Cons.prems p ns by simp
  moreover have "supports config act g x = projectHasGroup p act g"
    using p by (simp add: supports_def)
  ultimately show ?case using Cons.IH[OF ns] by simp
qed

lemma needsFollow_mem:
  "needsFollow config act L \<Longrightarrow> x \<in> set L \<Longrightarrow> set (configNeeds config act x) \<subseteq> set L"
  by (induction L) auto

lemma rewire_needs:
  "a' \<in> set (rewire config act items x) \<Longrightarrow> n \<in> set (needs a') \<Longrightarrow>
     (\<exists>a \<in> set items. n \<in> set (needs a) \<and> n \<noteq> x) \<or> n \<in> set (configNeeds config act x)"
  by (auto simp: rewire_def split: if_splits)

lemma rewire_pass:
  assumes "needsFollow config act L"
    and "\<forall>a \<in> set items. \<forall>n \<in> set (needs a). n \<in> set L \<or> supports config act g n"
  shows "\<forall>a \<in> set (foldl (rewire config act) items (filter (\<lambda>n. \<not> supports config act g n) L)).
           \<forall>n \<in> set (needs a). supports config act g n"
  using assms
proof (induction L arbitrary: items)
  case Nil
  then show ?case by simp
next
  case (Cons x L)
  have follow: "needsFollow config act L" and later: "set (configNeeds config act x) \<subseteq> set L"
    using Cons.prems(1) by simp_all
  show ?case
  proof (cases "supports config act g x")
    case True
    have "\<forall>a \<in> set items. \<forall>n \<in> set (needs a). n \<in> set L \<or> supports config act g n"
    proof (intro ballI)
      fix a n
      assume "a \<in> set items" and "n \<in> set (needs a)"
      then have "n \<in> set (x # L) \<or> supports config act g n" using Cons.prems(2) by blast
      then have "n = x \<or> n \<in> set L \<or> supports config act g n" by simp
      then show "n \<in> set L \<or> supports config act g n"
        using True by blast
    qed
    then have ih: "\<forall>a \<in> set (foldl (rewire config act) items (filter (\<lambda>n. \<not> supports config act g n) L)).
           \<forall>n \<in> set (needs a). supports config act g n"
      by (rule Cons.IH[OF follow])
    have eq: "filter (\<lambda>n. \<not> supports config act g n) (x # L) = filter (\<lambda>n. \<not> supports config act g n) L"
      using True by simp
    show ?thesis unfolding eq by (rule ih)
  next
    case False
    have "\<forall>a \<in> set (rewire config act items x). \<forall>n \<in> set (needs a). n \<in> set L \<or> supports config act g n"
    proof (intro ballI)
      fix a' n
      assume "a' \<in> set (rewire config act items x)" and "n \<in> set (needs a')"
      from rewire_needs[OF this]
      consider a where "a \<in> set items" "n \<in> set (needs a)" "n \<noteq> x"
        | "n \<in> set (configNeeds config act x)" by blast
      then show "n \<in> set L \<or> supports config act g n"
      proof cases
        case 1
        then have "n \<in> set (x # L) \<or> supports config act g n" using Cons.prems(2) by blast
        then have "n = x \<or> n \<in> set L \<or> supports config act g n" by simp
        then show ?thesis using 1(3) by blast
      next
        case 2
        then show ?thesis using later by blast
      qed
    qed
    then have ih: "\<forall>a \<in> set (foldl (rewire config act) (rewire config act items x)
                           (filter (\<lambda>n. \<not> supports config act g n) L)).
           \<forall>n \<in> set (needs a). supports config act g n"
      by (rule Cons.IH[OF follow])
    have eq: "foldl (rewire config act) items (filter (\<lambda>n. \<not> supports config act g n) (x # L))
        = foldl (rewire config act) (rewire config act items x) (filter (\<lambda>n. \<not> supports config act g n) L)"
      using False by simp
    show ?thesis unfolding eq by (rule ih)
  qed
qed


lemma closure_fold_result:
  "foldl (\<lambda>carry need. case carry of Inl e \<Rightarrow> Inl e
            | Inr c \<Rightarrow> (case G need of Inl e \<Rightarrow> Inl e | Inr r' \<Rightarrow> Inr (a # r' @ tl c)))
      (Inr c0) ns = Inr r \<Longrightarrow>
   (\<forall>n \<in> set ns. \<exists>r'. G n = Inr r' \<and> set r' \<subseteq> set r) \<and> set (tl c0) \<subseteq> set r \<and>
   (ns \<noteq> [] \<longrightarrow> a \<in> set r)"
proof (induction ns arbitrary: c0)
  case Nil
  then show ?case by (cases c0) auto
next
  case (Cons m ns)
  let ?step = "\<lambda>carry need. case carry of Inl e \<Rightarrow> Inl e
            | Inr c \<Rightarrow> (case G need of Inl e \<Rightarrow> Inl e | Inr r' \<Rightarrow> Inr (a # r' @ tl c))"
  obtain r1 where r1: "G m = Inr r1"
    using Cons.prems by (cases "G m") (simp_all add: closure_fold_Inl)
  have f: "foldl ?step (Inr (a # r1 @ tl c0)) ns = Inr r"
    using Cons.prems r1 by simp
  from Cons.IH[OF f]
  have ih1: "\<forall>n \<in> set ns. \<exists>r'. G n = Inr r' \<and> set r' \<subseteq> set r"
    and ih2: "set (r1 @ tl c0) \<subseteq> set r" and ih3: "ns \<noteq> [] \<longrightarrow> a \<in> set r"
    by simp_all
  have a: "a \<in> set r"
  proof (cases ns)
    case Nil
    then show ?thesis using f by auto
  next
    case (Cons k ks)
    then show ?thesis using ih3 by simp
  qed
  have "\<exists>r'. G m = Inr r' \<and> set r' \<subseteq> set r" using r1 ih2 by simp
  then show ?case using ih1 ih2 a by simp
qed

text \<open>What the closure computes for one need of an item.\<close>

definition visit :: "nat \<Rightarrow> Config \<Rightarrow> WorkItem \<Rightarrow> string \<Rightarrow> error + WorkItem list" where
  "visit d config a n =
     (case map_of (projects config) n of
        None \<Rightarrow> Inl TypeError
      | Some p \<Rightarrow> resolveProjectDependencies d config
                    (neededItem a n (map_of (Project.actions p) (action (keys a)))))"

lemma resolve_Suc_visit:
  "resolveProjectDependencies (Suc d) config a =
     (if needs a \<noteq> [] then
        foldl (\<lambda>carry need. case carry of Inl e \<Rightarrow> Inl e
            | Inr c \<Rightarrow> (case visit d config a need of Inl e \<Rightarrow> Inl e | Inr r' \<Rightarrow> Inr (a # r' @ tl c)))
          (Inr []) (needs a)
      else Inr [a])"
proof -
  have "(\<lambda>carry need.
            (case carry of
               Inl e \<Rightarrow> Inl e
             | Inr c \<Rightarrow>
                 (case map_of (projects config) need of
                    None \<Rightarrow> Inl TypeError
                  | Some p \<Rightarrow>
                      (case resolveProjectDependencies d config
                              (neededItem a need (map_of (Project.actions p) (action (keys a)))) of
                         Inl e \<Rightarrow> Inl e
                       | Inr r \<Rightarrow> Inr (a # r @ tl c)))))
      = (\<lambda>carry need. case carry of Inl e \<Rightarrow> Inl e
            | Inr c \<Rightarrow> (case visit d config a need of Inl e \<Rightarrow> Inl e | Inr r' \<Rightarrow> Inr (a # r' @ tl c)))"
    by (intro ext) (simp add: visit_def split: sum.splits option.splits)
  then show ?thesis by simp
qed

lemma resolve_head: "resolveProjectDependencies depth config a = Inr r \<Longrightarrow> a \<in> set r"
proof (cases depth)
  case 0
  assume "resolveProjectDependencies depth config a = Inr r"
  then show ?thesis using 0 by simp
next
  case (Suc d)
  assume r: "resolveProjectDependencies depth config a = Inr r"
  show ?thesis
  proof (cases "needs a = []")
    case True
    then show ?thesis using r Suc by auto
  next
    case False
    then have "foldl (\<lambda>carry need. case carry of Inl e \<Rightarrow> Inl e
            | Inr c \<Rightarrow> (case visit d config a need of Inl e \<Rightarrow> Inl e | Inr r' \<Rightarrow> Inr (a # r' @ tl c)))
          (Inr []) (needs a) = Inr r"
      using r unfolding Suc resolve_Suc_visit by simp
    from closure_fold_result[OF this] False show ?thesis by blast
  qed
qed

lemma resolve_needed_sub:
  assumes "resolveProjectDependencies depth config a = Inr r" and "needed config a b"
  shows "\<exists>d r'. resolveProjectDependencies d config b = Inr r' \<and> set r' \<subseteq> set r"
proof (cases depth)
  case 0
  then show ?thesis using assms(1) by simp
next
  case (Suc d)
  obtain n p where n: "n \<in> set (needs a)" and p: "map_of (projects config) n = Some p"
    and b: "b = neededItem a n (map_of (Project.actions p) (action (keys a)))"
    using assms(2) unfolding needed_def by blast
  have ne: "needs a \<noteq> []" using n by auto
  then have "foldl (\<lambda>carry need. case carry of Inl e \<Rightarrow> Inl e
            | Inr c \<Rightarrow> (case visit d config a need of Inl e \<Rightarrow> Inl e | Inr r' \<Rightarrow> Inr (a # r' @ tl c)))
          (Inr []) (needs a) = Inr r"
    using assms(1) unfolding Suc resolve_Suc_visit by simp
  from closure_fold_result[OF this] n
  obtain r' where "visit d config a n = Inr r'" and "set r' \<subseteq> set r" by blast
  then show ?thesis using p b by (auto simp: visit_def)
qed

lemma resolve_reaches:
  "(needed config)\<^sup>*\<^sup>* a b \<Longrightarrow> resolveProjectDependencies depth config a = Inr r \<Longrightarrow> b \<in> set r"
proof (induction arbitrary: depth r rule: converse_rtranclp_induct)
  case base
  then show ?case by (rule resolve_head)
next
  case (step y z)
  from resolve_needed_sub[OF step.prems step.hyps(1)]
  obtain d r' where r': "resolveProjectDependencies d config z = Inr r'" and sub: "set r' \<subseteq> set r"
    by blast
  from step.IH[OF r'] sub show ?case by blast
qed

lemma resolveAll_contains:
  "resolveAll depth config as = Inr r \<Longrightarrow> a \<in> set as \<Longrightarrow>
     \<exists>r'. resolveProjectDependencies depth config a = Inr r' \<and> set r' \<subseteq> set r"
proof (induction as arbitrary: r)
  case Nil
  then show ?case by simp
next
  case (Cons x as)
  obtain r1 r2 where r1: "resolveProjectDependencies depth config x = Inr r1"
    and r2: "resolveAll depth config as = Inr r2" and r: "r = r1 @ r2"
    using Cons.prems(1) by (auto split: sum.splits)
  show ?case
  proof (cases "a = x")
    case True
    then show ?thesis using r1 r by simp
  next
    case False
    then have "a \<in> set as" using Cons.prems(2) by simp
    from Cons.IH[OF r2 this] obtain r' where
      "resolveProjectDependencies depth config a = Inr r'" "set r' \<subseteq> set r2" by blast
    then show ?thesis using r by auto
  qed
qed


lemma rebound_keys:
  "keys (rebound config act g c) =
     \<lparr>project = project (keys c), action = action (keys c),
      group = (if supports config act g (project (keys c)) then g else ''*'')\<rparr>"
  by (cases "keys c") (simp add: rebound_def)

lemma declared_needs_listed:
  assumes "declaredItem config act a"
    and "\<forall>(name, p) \<in> set (projects config). map_of (Project.actions p) act \<noteq> None \<longrightarrow> name \<in> set L"
    and "needsFollow config act L"
  shows "set (needs a) \<subseteq> set L"
proof -
  obtain p pa where p: "map_of (projects config) (project (keys a)) = Some p"
    and pa: "map_of (Project.actions p) act = Some pa" and n: "needs a = needs pa"
    using assms(1) unfolding declaredItem_def by blast
  have "(project (keys a), p) \<in> set (projects config)" using p by (rule map_of_SomeD)
  then have "project (keys a) \<in> set L" using assms(2) pa by blast
  from needsFollow_mem[OF assms(3) this]
  show ?thesis using p pa n by (simp add: configNeeds_def)
qed

text \<open>
  The order in which the calls of \<^verbatim>\<open>resolveProjectDependencies\<close> happen: the item, then,
  for each of its needs in the order of the list, the calls for the item of that need.
\<close>

fun reached :: "nat \<Rightarrow> Config \<Rightarrow> WorkItem \<Rightarrow> WorkItem list" where
  "reached 0 config a = [a]"
| "reached (Suc depth) config a =
     a # concat (map (\<lambda>need.
           (case map_of (projects config) need of
              None \<Rightarrow> []
            | Some p \<Rightarrow> reached depth config
                         (neededItem a need (map_of (Project.actions p) (action (keys a))))))
         (needs a))"

lemma closure_fold_order:
  "foldl (\<lambda>carry need. case carry of Inl e \<Rightarrow> Inl e
            | Inr c \<Rightarrow> (case G need of Inl e \<Rightarrow> Inl e | Inr r' \<Rightarrow> Inr (a # r' @ tl c)))
      (Inr c0) ns = Inr r \<Longrightarrow> ns \<noteq> [] \<Longrightarrow>
   \<exists>rs. map G ns = map Inr rs \<and> r = a # concat (rev rs) @ tl c0"
proof (induction ns arbitrary: c0)
  case Nil
  then show ?case by simp
next
  case (Cons m ns)
  let ?step = "\<lambda>carry need. case carry of Inl e \<Rightarrow> Inl e
            | Inr c \<Rightarrow> (case G need of Inl e \<Rightarrow> Inl e | Inr r' \<Rightarrow> Inr (a # r' @ tl c))"
  obtain r1 where r1: "G m = Inr r1"
    using Cons.prems(1) by (cases "G m") (simp_all add: closure_fold_Inl)
  have f: "foldl ?step (Inr (a # r1 @ tl c0)) ns = Inr r"
    using Cons.prems(1) r1 by simp
  show ?case
  proof (cases "ns = []")
    case True
    then have "r = a # r1 @ tl c0" using f by simp
    then have "map G (m # ns) = map Inr [r1] \<and> r = a # concat (rev [r1]) @ tl c0"
      using True r1 by simp
    then show ?thesis by blast
  next
    case False
    from Cons.IH[OF f False] obtain rs where
      rs: "map G ns = map Inr rs" and r: "r = a # concat (rev rs) @ tl (a # r1 @ tl c0)"
      by blast
    have "map G (m # ns) = map Inr (r1 # rs) \<and> r = a # concat (rev (r1 # rs)) @ tl c0"
      using rs r r1 by simp
    then show ?thesis by blast
  qed
qed

lemma resolve_order:
  assumes "resolveProjectDependencies (Suc depth) config a = Inr r" and "needs a \<noteq> []"
  shows "\<exists>rs. map (visit depth config a) (needs a) = map Inr rs \<and> r = a # concat (rev rs)"
proof -
  have "foldl (\<lambda>carry need. case carry of Inl e \<Rightarrow> Inl e
            | Inr c \<Rightarrow> (case visit depth config a need of Inl e \<Rightarrow> Inl e | Inr r' \<Rightarrow> Inr (a # r' @ tl c)))
          (Inr []) (needs a) = Inr r"
    using assms unfolding resolve_Suc_visit by simp
  from closure_fold_order[OF this assms(2)] show ?thesis by simp
qed


lemma resolveAll_concat:
  "resolveAll depth config as = Inr r \<Longrightarrow>
     \<exists>closures. map (resolveProjectDependencies depth config) as = map Inr closures \<and> r = concat closures"
proof (induction as arbitrary: r)
  case Nil
  then show ?case by simp
next
  case (Cons x as)
  obtain r1 r2 where r1: "resolveProjectDependencies depth config x = Inr r1"
    and r2: "resolveAll depth config as = Inr r2" and r: "r = r1 @ r2"
    using Cons.prems by (auto split: sum.splits)
  from Cons.IH[OF r2] obtain cl where
    cl: "map (resolveProjectDependencies depth config) as = map Inr cl" and c: "r2 = concat cl"
    by blast
  have "map (resolveProjectDependencies depth config) (x # as) = map Inr (r1 # cl) \<and> r = concat (r1 # cl)"
    using r1 cl c r by simp
  then show ?case by blast
qed

section \<open>Reading the records\<close>

text \<open>
  The keys of a record, and the records that come from an invocation: those that carry
  neither skip mark.
\<close>

definition keysOf :: "ActionOutput \<Rightarrow> GroupKey" where
  "keysOf out = \<lparr>project = project out, action = action out, group = group out\<rparr>"

definition executed :: "ActionOutput \<Rightarrow> bool" where
  "executed out = (\<not> wasSkippedDuplicated out \<and> wasSkippedBy out = None)"

section \<open>Invariants of a run\<close>

text \<open>The keys of the invocations that are running, in launch order.\<close>

fun runningKeys :: "task \<Rightarrow> GroupKey list" and runningKeysAll :: "task list \<Rightarrow> GroupKey list" where
  "runningKeys (Duplicated out) = []"
| "runningKeys (Running k) = [k]"
| "runningKeys (Rejected e) = []"
| "runningKeys (Settled res children removed) = runningKeysAll children"
| "runningKeysAll [] = []"
| "runningKeysAll (t # ts) = runningKeys t @ runningKeysAll ts"

lemma countRunning_length:
  "countRunning t = length (runningKeys t)"
  "countRunnings ts = length (runningKeysAll ts)"
  by (induction t and ts rule: countRunning_countRunnings.induct) simp_all

lemma mset_settle_left: "k \<in># A \<Longrightarrow> A - {#k#} + N + B = A + B - {#k#} + N"
  by (auto dest!: multi_member_split)

lemma mset_settle_right: "k \<in># B \<Longrightarrow> A + (B - {#k#} + N) = A + B - {#k#} + N"
  by (auto dest!: multi_member_split)

text \<open>
  One completion, seen from outside the promises: one running invocation \<open>k\<close> is settled
  in state \<open>st\<close>; the running keys lose \<open>k\<close> and gain the invocations the completion
  started, the outputs gain what the settled promise already holds, and a rejection is
  remembered.
\<close>

definition stepEffect ::
  "(GroupKey \<Rightarrow> error + ActionOutput) \<Rightarrow> sched \<Rightarrow> sched \<Rightarrow> GroupKey multiset \<Rightarrow> GroupKey multiset
     \<Rightarrow> ActionOutput multiset \<Rightarrow> ActionOutput multiset \<Rightarrow> bool \<Rightarrow> bool \<Rightarrow> bool" where
  "stepEffect f st st' R R' Out Out' ok ok' =
     (\<exists>k new. k \<in># R \<and> settle f k st = (new, st') \<and>
        R' = R - {#k#} + mset (runningKeys new) \<and>
        Out' = Out + mset (outputsOf new) \<and>
        (ok' \<longleftrightarrow> ok \<and> rejectionOf new = None))"

lemma stepEffect_left:
  assumes "stepEffect f st st' R R' Out Out' ok ok'"
  shows "stepEffect f st st' (R + B) (R' + B) (Out + P) (Out' + P) (ok \<and> q) (ok' \<and> q)"
proof -
  obtain k new where k: "k \<in># R" and s: "settle f k st = (new, st')"
    and r: "R' = R - {#k#} + mset (runningKeys new)" and o: "Out' = Out + mset (outputsOf new)"
    and j: "ok' \<longleftrightarrow> ok \<and> rejectionOf new = None"
    using assms unfolding stepEffect_def by blast
  have "R' + B = R + B - {#k#} + mset (runningKeys new)"
    unfolding r by (rule mset_settle_left[OF k])
  moreover have "Out' + P = Out + P + mset (outputsOf new)" unfolding o by simp
  moreover have "(ok' \<and> q) \<longleftrightarrow> (ok \<and> q) \<and> rejectionOf new = None" using j by blast
  moreover have "k \<in># R + B" using k by simp
  ultimately show ?thesis unfolding stepEffect_def using s by blast
qed

lemma stepEffect_right:
  assumes "stepEffect f st st' R R' Out Out' ok ok'"
  shows "stepEffect f st st' (B + R) (B + R') (P + Out) (P + Out') (q \<and> ok) (q \<and> ok')"
proof -
  have "stepEffect f st st' (R + B) (R' + B) (Out + P) (Out' + P) (ok \<and> q) (ok' \<and> q)"
    by (rule stepEffect_left[OF assms])
  then show ?thesis by (simp add: add.commute conj_commute)
qed

lemma rejectionIn_Cons: "rejectionIn (t # ts) = None \<longleftrightarrow> rejectionOf t = None \<and> rejectionIn ts = None"
  by (simp split: option.splits)

lemma step_decompose:
  "n < countRunning t \<Longrightarrow> stepTask f n t st = (t', st') \<Longrightarrow>
     stepEffect f st st' (mset (runningKeys t)) (mset (runningKeys t'))
       (mset (outputsOf t)) (mset (outputsOf t')) (rejectionOf t = None) (rejectionOf t' = None)"
  "n < countRunnings ts \<Longrightarrow> stepTasks f n ts st = (ts', st') \<Longrightarrow>
     stepEffect f st st' (mset (runningKeysAll ts)) (mset (runningKeysAll ts'))
       (mset (outputsOfAll ts)) (mset (outputsOfAll ts')) (rejectionIn ts = None) (rejectionIn ts' = None)"
proof (induction f n t st and f n ts st arbitrary: t' st' and ts' st' rule: stepTask_stepTasks.induct)
  case (1 runActionFn n out st)
  then show ?case by simp
next
  case (2 runActionFn n k st)
  then show ?case unfolding stepEffect_def by (intro exI[of _ k] exI[of _ t']) simp
next
  case (3 runActionFn n e st)
  then show ?case by simp
next
  case (4 runActionFn n res children removed st)
  obtain cs s where cs: "stepTasks runActionFn n children st = (cs, s)"
    by (cases "stepTasks runActionFn n children st")
  then have t': "t' = Settled res cs removed" and s: "s = st'"
    using "4.prems"(2) by simp_all
  have "n < countRunnings children" using "4.prems"(1) by simp
  from "4.IH"[OF this cs]
  have e: "stepEffect runActionFn st s (mset (runningKeysAll children)) (mset (runningKeysAll cs))
       (mset (outputsOfAll children)) (mset (outputsOfAll cs)) (rejectionIn children = None) (rejectionIn cs = None)" .
  have "stepEffect runActionFn st s ({#} + mset (runningKeysAll children)) ({#} + mset (runningKeysAll cs))
       (({#res#} + mset removed) + mset (outputsOfAll children)) (({#res#} + mset removed) + mset (outputsOfAll cs))
       (True \<and> rejectionIn children = None) (True \<and> rejectionIn cs = None)"
    by (rule stepEffect_right[OF e])
  then show ?case unfolding t' s by (simp add: ac_simps)
next
  case (5 runActionFn n st)
  then show ?case by simp
next
  case (6 runActionFn n t ts st)
  show ?case
  proof (cases "n < countRunning t")
    case True
    obtain t1 s where t1: "stepTask runActionFn n t st = (t1, s)"
      by (cases "stepTask runActionFn n t st")
    then have ts': "ts' = t1 # ts" and s: "s = st'"
      using "6.prems"(2) True by simp_all
    from stepEffect_left[OF "6.IH"(1)[OF True True t1],
        of "mset (runningKeysAll ts)" "mset (outputsOfAll ts)" "rejectionIn ts = None"]
    show ?thesis unfolding ts' s rejectionIn_Cons by simp
  next
    case False
    obtain ts1 s where ts1: "stepTasks runActionFn (n - countRunning t) ts st = (ts1, s)"
      by (cases "stepTasks runActionFn (n - countRunning t) ts st")
    then have ts': "ts' = t # ts1" and s: "s = st'"
      using "6.prems"(2) False by simp_all
    have lt: "n - countRunning t < countRunnings ts" using "6.prems"(1) False by simp
    from stepEffect_right[OF "6.IH"(2)[OF False lt ts1],
        of "mset (runningKeys t)" "mset (outputsOf t)" "rejectionOf t = None"]
    show ?thesis unfolding ts' s rejectionIn_Cons by simp
  qed
qed


lemma runToCompletion_rule:
  assumes "runToCompletion f cs ts st = (ts', st', cs')"
    and "I (mset (runningKeysAll ts)) (mset (outputsOfAll ts)) (rejectionIn ts = None) st"
    and "\<And>R Out ok s R' Out' ok' s'.
           I R Out ok s \<Longrightarrow> stepEffect f s s' R R' Out Out' ok ok' \<Longrightarrow> I R' Out' ok' s'"
  shows "I {#} (mset (outputsOfAll ts')) (rejectionIn ts' = None) st'"
  using assms
proof (induction f cs ts st rule: runToCompletion.induct)
  case (1 runActionFn schedule ts st)
  show ?case
  proof (cases "countRunnings ts = 0")
    case True
    then have "runningKeysAll ts = []" by (simp add: countRunning_length)
    moreover have "ts' = ts" "st' = st"
      using "1.prems"(1) True by (simp_all add: runToCompletion.simps)
    ultimately show ?thesis using "1.prems"(2) by simp
  next
    case False
    let ?n = "case schedule of [] \<Rightarrow> 0 | c # cs \<Rightarrow> c mod countRunnings ts"
    obtain ts1 st1 where step: "stepTasks runActionFn ?n ts st = (ts1, st1)"
      by (cases "stepTasks runActionFn ?n ts st")
    have lt: "?n < countRunnings ts" using False by (cases schedule) auto
    have rest: "runToCompletion runActionFn (tl schedule) ts1 st1 = (ts', st', cs')"
      using "1.prems"(1) False step by (simp add: runToCompletion.simps)
    have "I (mset (runningKeysAll ts1)) (mset (outputsOfAll ts1)) (rejectionIn ts1 = None) st1"
      by (rule "1.prems"(3)[OF "1.prems"(2) step_decompose(2)[OF lt step]])
    from "1.IH"[OF False step[symmetric] rest this "1.prems"(3)] show ?thesis .
  qed
qed

lemma launch_clean: "launch k reg = (t, reg') \<Longrightarrow> rejectionOf t = None"
  by (auto simp: launch_def beganTask_def split: if_splits)

lemma launchAll_clean: "launchAll ks reg = (ts, reg') \<Longrightarrow> rejectionIn ts = None"
proof (induction ks arbitrary: reg ts reg')
  case Nil
  then show ?case by simp
next
  case (Cons k ks)
  obtain t r1 where t: "launch k reg = (t, r1)" by (cases "launch k reg")
  obtain ts1 r2 where ts1: "launchAll ks r1 = (ts1, r2)" by (cases "launchAll ks r1")
  have "ts = t # ts1" using Cons.prems t ts1 by simp
  then show ?case using launch_clean[OF t] Cons.IH[OF ts1] by simp
qed

text \<open>The addresses a round of the loop of \<^verbatim>\<open>actions\<close> launches.\<close>

definition readyAt :: "nat \<Rightarrow> int \<Rightarrow> sched \<Rightarrow> nat list" where
  "readyAt n p st = filter (\<lambda>a. effectivePriority (heap st a) = p \<and> needs (heap st a) = []) [0..<n]"

lemma runTiers_rule:
  assumes "runTiers f cs n ps st = Inr outs"
    and "I {#} Out0 True st"
    and tier: "\<And>Out s p ts reg. p \<in> set ps \<Longrightarrow> I {#} Out True s \<Longrightarrow>
           launchAll (map (\<lambda>a. keys (heap s a)) (readyAt n p s)) (begun s) = (ts, reg) \<Longrightarrow>
           I (mset (runningKeysAll ts)) (Out + mset (outputsOfAll ts)) True (s\<lparr>begun := reg\<rparr>)"
    and step: "\<And>R Out ok s R' Out' ok' s'.
           I R Out ok s \<Longrightarrow> stepEffect f s s' R R' Out Out' ok ok' \<Longrightarrow> I R' Out' ok' s'"
  shows "\<exists>st'. I {#} (Out0 + mset outs) True st'"
  using assms(1,2,3)
proof (induction ps arbitrary: cs st outs Out0)
  case Nil
  then show ?case by auto
next
  case (Cons p ps)
  obtain ts0 reg where l: "launchAll (map (\<lambda>a. keys (heap st a)) (readyAt n p st)) (begun st) = (ts0, reg)"
    by (cases "launchAll (map (\<lambda>a. keys (heap st a)) (readyAt n p st)) (begun st)")
  obtain ts st1 cs1 where r: "runToCompletion f cs ts0 (st\<lparr>begun := reg\<rparr>) = (ts, st1, cs1)"
    by (cases "runToCompletion f cs ts0 (st\<lparr>begun := reg\<rparr>)")
  have tp: "tierPass f cs n p st = (ts, st1, cs1)"
    using l r by (simp add: tierPass_def readyAt_def)
  have ok: "rejectionIn ts = None"
    using Cons.prems(1) tp by (auto split: option.splits)
  obtain rest where rest: "runTiers f cs1 n ps st1 = Inr rest" and outs: "outs = outputsOfAll ts @ rest"
    using Cons.prems(1) tp ok by (auto split: sum.splits)
  have i0: "I (mset (runningKeysAll ts0)) (Out0 + mset (outputsOfAll ts0)) True (st\<lparr>begun := reg\<rparr>)"
    by (rule Cons.prems(3)[OF _ Cons.prems(2) l]) simp
  have "(\<lambda>R Out ok s. I R (Out0 + Out) ok s) {#} (mset (outputsOfAll ts)) (rejectionIn ts = None) st1"
  proof (rule runToCompletion_rule[OF r])
    show "I (mset (runningKeysAll ts0)) (Out0 + mset (outputsOfAll ts0)) (rejectionIn ts0 = None) (st\<lparr>begun := reg\<rparr>)"
      using i0 launchAll_clean[OF l] by simp
  next
    fix R Out ok s R' Out' ok' s'
    assume i: "I R (Out0 + Out) ok s" and e: "stepEffect f s s' R R' Out Out' ok ok'"
    have "stepEffect f s s' ({#} + R) ({#} + R') (Out0 + Out) (Out0 + Out') (True \<and> ok) (True \<and> ok')"
      by (rule stepEffect_right[OF e])
    then have "stepEffect f s s' R R' (Out0 + Out) (Out0 + Out') ok ok'" by simp
    from step[OF i this] show "I R' (Out0 + Out') ok' s'" .
  qed
  then have i1: "I {#} (Out0 + mset (outputsOfAll ts)) True st1" using ok by simp
  have "\<exists>st'. I {#} ((Out0 + mset (outputsOfAll ts)) + mset rest) True st'"
  proof (rule Cons.IH[OF rest i1])
    fix Out s q ts2 reg2
    assume "q \<in> set ps" and "I {#} Out True s"
      and "launchAll (map (\<lambda>a. keys (heap s a)) (readyAt n q s)) (begun s) = (ts2, reg2)"
    then show "I (mset (runningKeysAll ts2)) (Out + mset (outputsOfAll ts2)) True (s\<lparr>begun := reg2\<rparr>)"
      using Cons.prems(3)[of q Out s ts2 reg2] by simp
  qed
  then show ?case unfolding outs by (simp add: ac_simps)
qed

section \<open>What a launch and a completion do\<close>

lemma launch_cases:
  "launch k reg = (if k \<in> set reg then (Duplicated (duplicateRecord k), reg) else (Running k, reg @ [k]))"
  by (simp add: launch_def beganTask_def)

lemma launchAll_Cons:
  "launchAll (k # ks) reg =
     (if k \<in> set reg
      then (Duplicated (duplicateRecord k) # fst (launchAll ks reg), snd (launchAll ks reg))
      else (Running k # fst (launchAll ks (reg @ [k])), snd (launchAll ks (reg @ [k]))))"
  by (simp add: launch_cases split: prod.splits)

lemma launchAll_registry:
  "launchAll ks reg = (ts, reg') \<Longrightarrow> reg' = reg @ runningKeysAll ts"
proof (induction ks arbitrary: reg ts reg')
  case Nil
  then show ?case by auto
next
  case (Cons k ks)
  show ?case
  proof (cases "k \<in> set reg")
    case True
    obtain ts1 r1 where l: "launchAll ks reg = (ts1, r1)" by (cases "launchAll ks reg")
    have "ts = Duplicated (duplicateRecord k) # ts1" "reg' = r1"
      using Cons.prems True l by (simp_all add: launch_cases)
    then show ?thesis using Cons.IH[OF l] by simp
  next
    case False
    obtain ts1 r1 where l: "launchAll ks (reg @ [k]) = (ts1, r1)" by (cases "launchAll ks (reg @ [k])")
    have "ts = Running k # ts1" "reg' = r1"
      using Cons.prems False l by (simp_all add: launch_cases)
    then show ?thesis using Cons.IH[OF l] by simp
  qed
qed

lemma launchAll_running:
  "launchAll ks reg = (ts, reg') \<Longrightarrow>
     set (runningKeysAll ts) = set ks - set reg \<and> distinct (runningKeysAll ts)"
proof (induction ks arbitrary: reg ts reg')
  case Nil
  then show ?case by auto
next
  case (Cons k ks)
  show ?case
  proof (cases "k \<in> set reg")
    case True
    obtain ts1 r1 where l: "launchAll ks reg = (ts1, r1)" by (cases "launchAll ks reg")
    have "ts = Duplicated (duplicateRecord k) # ts1"
      using Cons.prems True l by (simp add: launch_cases)
    then show ?thesis using Cons.IH[OF l] True by auto
  next
    case False
    obtain ts1 r1 where l: "launchAll ks (reg @ [k]) = (ts1, r1)" by (cases "launchAll ks (reg @ [k])")
    have "ts = Running k # ts1"
      using Cons.prems False l by (simp add: launch_cases)
    then show ?thesis using Cons.IH[OF l] False by auto
  qed
qed

lemma launchAll_shape:
  "launchAll ks reg = (ts, reg') \<Longrightarrow>
     list_all2 (\<lambda>t k. t = Running k \<or> (t = Duplicated (duplicateRecord k) \<and> k \<in> set reg')) ts ks"
proof (induction ks arbitrary: reg ts reg')
  case Nil
  then show ?case by auto
next
  case (Cons k ks)
  show ?case
  proof (cases "k \<in> set reg")
    case True
    obtain ts1 r1 where l: "launchAll ks reg = (ts1, r1)" by (cases "launchAll ks reg")
    have ts: "ts = Duplicated (duplicateRecord k) # ts1" and r: "reg' = r1"
      using Cons.prems True l by (simp_all add: launch_cases)
    have "k \<in> set reg'" using launchAll_registry[OF l] True r by simp
    then show ?thesis using Cons.IH[OF l] ts r by simp
  next
    case False
    obtain ts1 r1 where l: "launchAll ks (reg @ [k]) = (ts1, r1)" by (cases "launchAll ks (reg @ [k])")
    have ts: "ts = Running k # ts1" and r: "reg' = r1"
      using Cons.prems False l by (simp_all add: launch_cases)
    show ?thesis using Cons.IH[OF l] ts r by simp
  qed
qed

lemma launchAll_outputs:
  assumes "launchAll ks reg = (ts, reg')" and "out \<in> set (outputsOfAll ts)"
  shows "\<exists>k \<in> set ks. out = duplicateRecord k \<and> k \<in> set reg'"
  using launchAll_shape[OF assms(1)] assms(2)
proof (induction ts ks rule: list_all2_induct)
  case Nil
  then show ?case by simp
next
  case (Cons t ts k ks)
  then show ?case by auto
qed

lemma launchAll_all_run:
  "launchAll ks reg = (ts, reg') \<Longrightarrow> distinct ks \<Longrightarrow> set ks \<inter> set reg = {} \<Longrightarrow>
     ts = map Running ks"
proof (induction ks arbitrary: reg ts reg')
  case Nil
  then show ?case by auto
next
  case (Cons k ks)
  have nk: "k \<notin> set reg" using Cons.prems(3) by auto
  obtain ts1 r1 where l: "launchAll ks (reg @ [k]) = (ts1, r1)" by (cases "launchAll ks (reg @ [k])")
  have ts: "ts = Running k # ts1"
    using Cons.prems(1) nk l by (simp add: launch_cases)
  have "set ks \<inter> set (reg @ [k]) = {}" using Cons.prems(2,3) by auto
  from Cons.IH[OF l _ this] Cons.prems(2) show ?case using ts by simp
qed

lemma launchAll_lengths:
  "launchAll ks reg = (ts, reg') \<Longrightarrow> length (runningKeysAll ts) + length (outputsOfAll ts) = length ks"
proof (induction ks arbitrary: reg ts reg')
  case Nil
  then show ?case by auto
next
  case (Cons k ks)
  show ?case
  proof (cases "k \<in> set reg")
    case True
    obtain ts1 r1 where l: "launchAll ks reg = (ts1, r1)" by (cases "launchAll ks reg")
    have "ts = Duplicated (duplicateRecord k) # ts1"
      using Cons.prems True l by (simp add: launch_cases)
    then show ?thesis using Cons.IH[OF l] by simp
  next
    case False
    obtain ts1 r1 where l: "launchAll ks (reg @ [k]) = (ts1, r1)" by (cases "launchAll ks (reg @ [k])")
    have "ts = Running k # ts1"
      using Cons.prems False l by (simp add: launch_cases)
    then show ?thesis using Cons.IH[OF l] by simp
  qed
qed


lemma dropNeed_idem: "dropNeed p (dropNeed p w) = dropNeed p w"
  by (simp add: dropNeed_def)

lemma dropNeed_same:
  "keys (dropNeed p w) = keys w" "priority (dropNeed p w) = priority w" "groups (dropNeed p w) = groups w"
  "needs (dropNeed p w) = filter (\<lambda>need. need \<noteq> p) (needs w)"
  by (simp_all add: dropNeed_def)

lemma freeBlocked_effect:
  "freeBlocked p h b = (h', b', freed) \<Longrightarrow>
     (\<forall>x. h' x = (if x \<in> set (present b) then dropNeed p (h x) else h x)) \<and>
     freed = filter (\<lambda>a. needs (dropNeed p (h a)) = []) (present b) \<and>
     present b' = filter (\<lambda>a. needs (dropNeed p (h a)) \<noteq> []) (present b)"
proof (induction b arbitrary: h h' b' freed)
  case Nil
  then show ?case by auto
next
  case (Cons x b)
  show ?case
  proof (cases x)
    case None
    obtain h1 b1 f1 where r: "freeBlocked p h b = (h1, b1, f1)"
      by (cases "freeBlocked p h b") auto
    have "h' = h1" "b' = None # b1" "freed = f1"
      using Cons.prems None r by simp_all
    then show ?thesis using Cons.IH[OF r] None by simp
  next
    case (Some a)
    let ?h = "h(a := dropNeed p (h a))"
    obtain h1 b1 f1 where r: "freeBlocked p ?h b = (h1, b1, f1)"
      by (cases "freeBlocked p ?h b") auto
    have same: "dropNeed p (?h y) = dropNeed p (h y)" for y
      by (simp add: dropNeed_idem)
    from Cons.IH[OF r]
    have ih1: "\<forall>y. h1 y = (if y \<in> set (present b) then dropNeed p (h y) else ?h y)"
      and ih2: "f1 = filter (\<lambda>a. needs (dropNeed p (h a)) = []) (present b)"
      and ih3: "present b1 = filter (\<lambda>a. needs (dropNeed p (h a)) \<noteq> []) (present b)"
      unfolding same by simp_all
    have h': "h' = h1" using Cons.prems Some r by (simp split: if_splits)
    have c1: "\<forall>y. h' y = (if y \<in> set (present (x # b)) then dropNeed p (h y) else h y)"
      unfolding h' using ih1 Some by simp
    show ?thesis
    proof (cases "needs (dropNeed p (h a)) = []")
      case True
      then have "b' = None # b1" "freed = a # f1"
        using Cons.prems Some r by simp_all
      then show ?thesis using c1 ih2 ih3 Some True by simp
    next
      case False
      then have "b' = Some a # b1" "freed = f1"
        using Cons.prems Some r by simp_all
      then show ?thesis using c1 ih2 ih3 Some False by simp
    qed
  qed
qed


text \<open>
  The start of the callback: the records of the cascade and the pending array it leaves,
  for a result with an exit code other than 0; nothing and the array as it is otherwise.
\<close>

definition afterFailure :: "ActionOutput \<Rightarrow> sched \<Rightarrow> ActionOutput list \<times> nat option list" where
  "afterFailure res st =
     (if exitCode res = Some 0 then ([], blockedActions st)
      else findActionsToSkipAfterFailure (project res) (heap st) (blockedActions st))"

lemma settle_effect:
  assumes "settle f k st = (new, st')" and "f k = Inr res"
  shows "\<exists>children.
     new = Settled res children (fst (afterFailure res st)) \<and>
     launchAll (map (\<lambda>a. k\<lparr>project := project (keys (heap st a))\<rparr>)
                  (filter (\<lambda>a. needs (dropNeed (project k) (heap st a)) = [])
                     (present (snd (afterFailure res st)))))
        (begun st) = (children, begun st') \<and>
     present (blockedActions st') =
        filter (\<lambda>a. needs (dropNeed (project k) (heap st a)) \<noteq> []) (present (snd (afterFailure res st))) \<and>
     (\<forall>x. heap st' x = (if x \<in> set (present (snd (afterFailure res st)))
                          then dropNeed (project k) (heap st x) else heap st x))"
proof -
  obtain removed b1 where a: "afterFailure res st = (removed, b1)"
    by (cases "afterFailure res st")
  obtain h b2 freed where fb: "freeBlocked (project k) (heap st) b1 = (h, b2, freed)"
    by (cases "freeBlocked (project k) (heap st) b1") auto
  obtain children reg where l:
    "launchAll (map (\<lambda>a. k\<lparr>project := project (keys (h a))\<rparr>) freed) (begun st) = (children, reg)"
    by (cases "launchAll (map (\<lambda>a. k\<lparr>project := project (keys (h a))\<rparr>) freed) (begun st)")
  have new: "new = Settled res children removed"
    and st': "st' = \<lparr>heap = h, blockedActions = b2, begun = reg\<rparr>"
    using assms a fb l unfolding settle_def afterFailure_def by simp_all
  from freeBlocked_effect[OF fb]
  have h: "\<forall>x. h x = (if x \<in> set (present b1) then dropNeed (project k) (heap st x) else heap st x)"
    and fr: "freed = filter (\<lambda>a. needs (dropNeed (project k) (heap st a)) = []) (present b1)"
    and pb: "present b2 = filter (\<lambda>a. needs (dropNeed (project k) (heap st a)) \<noteq> []) (present b1)"
    by simp_all
  have "keys (h x) = keys (heap st x)" for x using h by (simp add: dropNeed_same)
  then have "(\<lambda>a. k\<lparr>project := project (keys (h a))\<rparr>) = (\<lambda>a. k\<lparr>project := project (keys (heap st a))\<rparr>)"
    by simp
  then have l': "launchAll (map (\<lambda>a. k\<lparr>project := project (keys (heap st a))\<rparr>) freed) (begun st) = (children, reg)"
    using l by simp
  show ?thesis
    unfolding a fst_conv snd_conv
    by (rule exI[of _ children]) (use new l' fr pb h st' in simp)
qed

lemma settle_rejected: "f k = Inl e \<Longrightarrow> settle f k st = (Rejected e, st)"
  by (simp add: settle_def)


lemma settle_Settled:
  "settle f k st = (Settled res children removed, st') \<Longrightarrow> f k = Inr res"
  by (cases "f k") (auto simp: settle_def split: prod.splits)

lemma runAction_record:
  assumes "runAction getDir spawn config k = Inr out"
  shows "keysOf out = k \<and> executed out \<and>
     (\<exists>p a. map_of (projects config) (project k) = Some p \<and>
            map_of (Project.actions p) (action k) = Some a \<and>
            cmd out = (case map_of (groups a) (group k) of
                         Some c \<Rightarrow> Some c
                       | None \<Rightarrow> map_of (groups a) ''*''))"
proof -
  obtain p where p: "map_of (projects config) (project k) = Some p"
    using assms by (cases "map_of (projects config) (project k)") (simp_all add: runAction_def)
  obtain a where a: "map_of (Project.actions p) (action k) = Some a"
    using assms p by (cases "map_of (Project.actions p) (action k)") (simp_all add: runAction_def)
  obtain c where c: "(case map_of (groups a) (group k) of
                        None \<Rightarrow> map_of (groups a) ''*''
                      | Some c \<Rightarrow> Some c) = Some c"
    using assms p a
    by (cases "(case map_of (groups a) (group k) of
                        None \<Rightarrow> map_of (groups a) ''*''
                      | Some c \<Rightarrow> Some c)") (simp_all add: runAction_def)
  have out: "project out = project k" "action out = action k" "group out = group k"
    "cmd out = Some c" "\<not> wasSkippedDuplicated out" "wasSkippedBy out = None"
    using assms p a c by (auto simp: runAction_def Let_def)
  have "keysOf out = k" using out(1-3) by (cases k) (simp add: keysOf_def)
  moreover have "cmd out = (case map_of (groups a) (group k) of
                         Some c \<Rightarrow> Some c
                       | None \<Rightarrow> map_of (groups a) ''*'')"
    using out(4) c by (simp split: option.splits)
  ultimately show ?thesis using p a out(5,6) by (simp add: executed_def)
qed

section \<open>What the records of a run say\<close>

text \<open>Every record of the cascade is the skip record of a work item.\<close>

lemma skip_records:
  "\<forall>r \<in> set (fst (findActionsToSkipAfterFailure f h b)). \<exists>a q. r = skipRecord (h a) q"
  "\<forall>r \<in> set (fst (skipEach f h s b)). \<exists>a q. r = skipRecord (h a) q"
proof (induction f h b and f h s b rule: findActionsToSkipAfterFailure_skipEach.induct)
  case (1 failedProject h blocked)
  then show ?case by simp
next
  case (2 failedProject h blocked)
  then show ?case by simp
next
  case (3 failedProject h a rest blocked)
  obtain sk b1 where r1: "findActionsToSkipAfterFailure (project (keys (h a))) h (deleteRef a blocked) = (sk, b1)"
    by (cases "findActionsToSkipAfterFailure (project (keys (h a))) h (deleteRef a blocked)")
  obtain ot b2 where r2: "skipEach failedProject h rest b1 = (ot, b2)"
    by (cases "skipEach failedProject h rest b1")
  have p1: "\<forall>r \<in> set sk. \<exists>a q. r = skipRecord (h a) q" using "3.IH"(1) r1 by simp
  have p2: "\<forall>r \<in> set ot. \<exists>a q. r = skipRecord (h a) q" using "3.IH"(2)[OF r1[symmetric]] r2 by simp
  have "fst (skipEach failedProject h (a # rest) blocked) = skipRecord (h a) failedProject # sk @ ot"
    using r1 r2 by simp
  then show ?case using p1 p2 by auto
qed

lemma afterFailure_records:
  "r \<in> set (fst (afterFailure res st)) \<Longrightarrow> \<exists>a q. r = skipRecord (heap st a) q"
  using skip_records(1)[of "project res" "heap st" "blockedActions st"]
  by (auto simp: afterFailure_def split: if_splits)

lemma skipRecord_flags:
  "\<not> executed (skipRecord w q)" "\<not> wasSkippedDuplicated (skipRecord w q)"
  "wasSkippedBy (skipRecord w q) = Some q" "keysOf (skipRecord w q) = keys w"
  by (cases "keys w"; simp add: executed_def skipRecord_def keysOf_def)+

lemma duplicateRecord_flags:
  "\<not> executed (duplicateRecord k)" "wasSkippedDuplicated (duplicateRecord k)"
  "wasSkippedBy (duplicateRecord k) = None" "keysOf (duplicateRecord k) = k"
  by (cases k; simp add: executed_def duplicateRecord_def keysOf_def)+

text \<open>
  The invoker \<^verbatim>\<open>runAction\<close> spreads the keys it was given into the record it returns and sets
  neither skip field. The scheduler takes the invoker as a parameter; the properties of the
  records of a run are stated for invokers that answer in this way.
\<close>

definition echoes :: "(GroupKey \<Rightarrow> error + ActionOutput) \<Rightarrow> bool" where
  "echoes f = (\<forall>k res. f k = Inr res \<longrightarrow> keysOf res = k \<and> executed res)"

text \<open>
  One completion of a run that does not reject: the invocation of a running key returned a
  record, and the freed items were launched from the registry as it was.
\<close>
lemma stepEffect_cases:
  assumes "stepEffect f s s' R R' Out Out' ok ok'" and "ok'"
  obtains k res children where
    "k \<in># R" "f k = Inr res" "ok"
    "launchAll (map (\<lambda>a. k\<lparr>project := project (keys (heap s a))\<rparr>)
                  (filter (\<lambda>a. needs (dropNeed (project k) (heap s a)) = [])
                     (present (snd (afterFailure res s)))))
        (begun s) = (children, begun s')"
    "R' = R - {#k#} + mset (runningKeysAll children)"
    "Out' = Out + ({#res#} + mset (outputsOfAll children) + mset (fst (afterFailure res s)))"
    "present (blockedActions s') =
        filter (\<lambda>a. needs (dropNeed (project k) (heap s a)) \<noteq> []) (present (snd (afterFailure res s)))"
    "\<forall>x. heap s' x = (if x \<in> set (present (snd (afterFailure res s)))
                          then dropNeed (project k) (heap s x) else heap s x)"
proof -
  obtain k new where k: "k \<in># R" and st: "settle f k s = (new, s')"
    and r: "R' = R - {#k#} + mset (runningKeys new)" and o: "Out' = Out + mset (outputsOf new)"
    and j: "ok' \<longleftrightarrow> ok \<and> rejectionOf new = None"
    using assms(1) unfolding stepEffect_def by blast
  have ok: "ok" and nr: "rejectionOf new = None" using j assms(2) by simp_all
  obtain res where res: "f k = Inr res"
  proof (cases "f k")
    case (Inl e)
    then have "new = Rejected e" using st by (simp add: settle_def)
    then show ?thesis using nr by simp
  next
    case (Inr res)
    then show ?thesis by (rule that)
  qed
  from settle_effect[OF st res] obtain children where
    new: "new = Settled res children (fst (afterFailure res s))"
    and l: "launchAll (map (\<lambda>a. k\<lparr>project := project (keys (heap s a))\<rparr>)
                  (filter (\<lambda>a. needs (dropNeed (project k) (heap s a)) = [])
                     (present (snd (afterFailure res s)))))
        (begun s) = (children, begun s')"
    and pb: "present (blockedActions s') =
        filter (\<lambda>a. needs (dropNeed (project k) (heap s a)) \<noteq> []) (present (snd (afterFailure res s)))"
    and h: "\<forall>x. heap s' x = (if x \<in> set (present (snd (afterFailure res s)))
                          then dropNeed (project k) (heap s x) else heap s x)"
    by blast
  show ?thesis
    by (rule that[OF k res ok l _ _ pb h]) (simp_all add: r o new)
qed


text \<open>
  The registry holds every key once: the keys that are running and the keys of the executed
  records; the key of every duplicate record is in the registry.
\<close>

definition onceInv :: "GroupKey multiset \<Rightarrow> ActionOutput multiset \<Rightarrow> bool \<Rightarrow> sched \<Rightarrow> bool" where
  "onceInv R Out ok s = (ok \<longrightarrow>
      distinct (begun s)
    \<and> mset (begun s) = R + image_mset keysOf (filter_mset executed Out)
    \<and> (\<forall>d \<in># Out. wasSkippedDuplicated d \<longrightarrow> keysOf d \<in> set (begun s)))"

lemma launchAll_duplicates:
  assumes "launchAll ks reg = (ts, reg')" and "d \<in> set (outputsOfAll ts)"
  shows "\<not> executed d \<and> keysOf d \<in> set reg'"
proof -
  have sh: "list_all2 (\<lambda>t k. t = Running k \<or> (t = Duplicated (duplicateRecord k) \<and> k \<in> set reg')) ts ks"
    using launchAll_shape[OF assms(1)] .
  have "\<forall>d \<in> set (outputsOfAll ts). \<not> executed d \<and> keysOf d \<in> set reg'"
    using sh by (induction ts ks rule: list_all2_induct) (auto simp: duplicateRecord_flags)
  then show ?thesis using assms(2) by blast
qed

lemma launchAll_no_executed:
  assumes "launchAll ks reg = (ts, reg')"
  shows "filter_mset executed (mset (outputsOfAll ts)) = {#}"
  using launchAll_duplicates[OF assms] by auto

lemma onceInv_launch:
  assumes i: "onceInv R Out True s" and l: "launchAll ks (begun s) = (ts, reg)"
  shows "onceInv (R + mset (runningKeysAll ts)) (Out + mset (outputsOfAll ts)) True (s\<lparr>begun := reg\<rparr>)"
proof -
  have reg: "reg = begun s @ runningKeysAll ts" using launchAll_registry[OF l] .
  have run: "set (runningKeysAll ts) = set ks - set (begun s)" "distinct (runningKeysAll ts)"
    using launchAll_running[OF l] by simp_all
  have d: "distinct (begun s)" and m: "mset (begun s) = R + image_mset keysOf (filter_mset executed Out)"
    and q: "\<forall>d \<in># Out. wasSkippedDuplicated d \<longrightarrow> keysOf d \<in> set (begun s)"
    using i by (simp_all add: onceInv_def)
  have d': "distinct reg" unfolding reg using d run by auto
  have m': "mset reg = (R + mset (runningKeysAll ts))
       + image_mset keysOf (filter_mset executed (Out + mset (outputsOfAll ts)))"
    unfolding reg using m launchAll_no_executed[OF l] by simp
  have q': "\<forall>d \<in># Out + mset (outputsOfAll ts). wasSkippedDuplicated d \<longrightarrow> keysOf d \<in> set reg"
  proof
    fix x assume "x \<in># Out + mset (outputsOfAll ts)"
    then consider "x \<in># Out" | "x \<in> set (outputsOfAll ts)" by auto
    then show "wasSkippedDuplicated x \<longrightarrow> keysOf x \<in> set reg"
    proof cases
      case 1
      then show ?thesis using q reg by auto
    next
      case 2
      then show ?thesis using launchAll_duplicates[OF l 2] by simp
    qed
  qed
  show ?thesis unfolding onceInv_def using d' m' q' by simp
qed

lemma onceInv_step:
  assumes e: "echoes f" and i: "onceInv R Out ok s"
    and st: "stepEffect f s s' R R' Out Out' ok ok'"
  shows "onceInv R' Out' ok' s'"
proof (cases ok')
  case False
  then show ?thesis by (simp add: onceInv_def)
next
  case True
  from st True obtain k res children where k: "k \<in># R" and res: "f k = Inr res" and ok: "ok"
    and l: "launchAll (map (\<lambda>a. k\<lparr>project := project (keys (heap s a))\<rparr>)
                  (filter (\<lambda>a. needs (dropNeed (project k) (heap s a)) = [])
                     (present (snd (afterFailure res s)))))
        (begun s) = (children, begun s')"
    and r': "R' = R - {#k#} + mset (runningKeysAll children)"
    and o': "Out' = Out + ({#res#} + mset (outputsOfAll children) + mset (fst (afterFailure res s)))"
    by (rule stepEffect_cases)
  have kr: "keysOf res = k" "executed res" using e res by (auto simp: echoes_def)
  have i0: "onceInv R Out True s" using i ok by simp
  have i1: "onceInv (R + mset (runningKeysAll children)) (Out + mset (outputsOfAll children)) True
              (s\<lparr>begun := begun s'\<rparr>)"
    by (rule onceInv_launch[OF i0 l])
  have sk: "\<forall>r \<in> set (fst (afterFailure res s)). \<not> executed r \<and> \<not> wasSkippedDuplicated r"
    using afterFailure_records skipRecord_flags by blast
  then have fe: "filter_mset executed (mset (fst (afterFailure res s))) = {#}"
    by auto
  have d: "distinct (begun s')" using i1 by (simp add: onceInv_def)
  have m: "mset (begun s') = (R + mset (runningKeysAll children))
             + image_mset keysOf (filter_mset executed (Out + mset (outputsOfAll children)))"
    using i1 by (simp add: onceInv_def)
  have q: "\<forall>d \<in># Out + mset (outputsOfAll children). wasSkippedDuplicated d \<longrightarrow> keysOf d \<in> set (begun s')"
    using i1 by (simp add: onceInv_def)
  have rk: "R = (R - {#k#}) + {#k#}" using k by simp
  have m': "mset (begun s') = R' + image_mset keysOf (filter_mset executed Out')"
  proof -
    have "mset (begun s') = ((R - {#k#}) + {#k#} + mset (runningKeysAll children))
             + image_mset keysOf (filter_mset executed (Out + mset (outputsOfAll children)))"
      using m rk by simp
    also have "\<dots> = R' + image_mset keysOf (filter_mset executed Out')"
      unfolding r' o' using kr fe by simp
    finally show ?thesis .
  qed
  have q': "\<forall>d \<in># Out'. wasSkippedDuplicated d \<longrightarrow> keysOf d \<in> set (begun s')"
  proof
    fix x assume "x \<in># Out'"
    then consider "x \<in># Out + mset (outputsOfAll children)" | "x = res"
      | "x \<in> set (fst (afterFailure res s))"
      unfolding o' by auto
    then show "wasSkippedDuplicated x \<longrightarrow> keysOf x \<in> set (begun s')"
    proof cases
      case 1
      then show ?thesis using q by blast
    next
      case 2
      then show ?thesis using kr by (simp add: executed_def)
    next
      case 3
      then show ?thesis using sk by blast
    qed
  qed
  show ?thesis unfolding onceInv_def using d m' q' by simp
qed

lemma run_onceInv:
  assumes e: "echoes f" and r: "run f schedule items = Inr outs"
  shows "\<exists>st'. onceInv {#} (mset outs) True st'"
proof -
  have r': "runTiers f schedule (length items) (getUniquePriorities items) (initial items) = Inr outs"
    using r by (simp add: run_def)
  have "\<exists>st'. onceInv {#} ({#} + mset outs) True st'"
  proof (rule runTiers_rule[OF r'])
    show "onceInv {#} {#} True (initial items)" by (simp add: onceInv_def initial_def)
  next
    fix Out s p ts reg
    assume "onceInv {#} Out True s"
      and "launchAll (map (\<lambda>a. keys (heap s a)) (readyAt (length items) p s)) (begun s) = (ts, reg)"
    from onceInv_launch[OF this]
    show "onceInv (mset (runningKeysAll ts)) (Out + mset (outputsOfAll ts)) True (s\<lparr>begun := reg\<rparr>)"
      by simp
  next
    fix R Out ok s R' Out' ok' s'
    assume "onceInv R Out ok s" and "stepEffect f s s' R R' Out Out' ok ok'"
    then show "onceInv R' Out' ok' s'" by (rule onceInv_step[OF e])
  qed
  then show ?thesis by simp
qed

lemma count_filter_keys:
  "count (image_mset keysOf (filter_mset executed (mset outs))) k
     = length (filter (\<lambda>out. executed out \<and> keysOf out = k) outs)"
  by (induction outs) auto


lemma runAction_echoes: "echoes (runAction getDir spawn config)"
  unfolding echoes_def using runAction_record by blast

lemma laterTier_selection:
  "getProjectsToRunActionIn (\<lambda>c a. [''A'', ''B'']) 5 laterTier ''build'' ''*'' [''A'', ''B'']
     = Inr laterTierItems"
  by (simp add: selection_defs laterTier_def laterTierItems_def eval_nat_numeral)

lemma laterTier_run:
  "run (runAction remoteDir exits0 laterTier) [] laterTierItems = Inr laterTierRecords"
  by (simp add: run_defs laterTier_def laterTierItems_def laterTierRecords_def exits0_def)

section \<open>What the cascade removes\<close>















section \<open>The pending pool during a run\<close>

text \<open>
  The array holds every address once, only addresses of work items, and only items with
  needs left; the store keeps the keys and the priority of every work item, and its needs
  only shrink.
\<close>

definition pool :: "WorkItem list \<Rightarrow> sched \<Rightarrow> bool" where
  "pool items s =
     (distinct (present (blockedActions s))
    \<and> (\<forall>a \<in> set (present (blockedActions s)). a < length items \<and> needs (heap s a) \<noteq> [])
    \<and> (\<forall>a < length items. keys (heap s a) = keys (items ! a)
                          \<and> priority (heap s a) = priority (items ! a)
                          \<and> set (needs (heap s a)) \<subseteq> set (needs (items ! a))))"



lemma pool_begun: "pool items (s\<lparr>begun := reg\<rparr>) = pool items s"
  by (simp add: pool_def)





















section \<open>What one pass launches\<close>











section \<open>Priorities\<close>

text \<open>
  C2. The tiers are the distinct priorities in the order in which the work items were
  discovered: with \<open>x\<close> (priority 5) selected before \<open>y\<close> (priority 0) the tier of 5
  is processed first, and the result lists the record of \<open>x\<close> before that of \<open>y\<close>.
  The tiers are not sorted.
\<close>

theorem tiers_follow_discovery_order:
  "getProjectsToRunActionIn (\<lambda>c a. [''x'', ''y'']) 3 twoTiers ''build'' ''*'' [''x'', ''y'']
     = Inr [\<lparr>priority = Some 5, needs = [], groups = [(''*'', [''make''])],
              keys = \<lparr>project = ''x'', action = ''build'', group = ''*''\<rparr>\<rparr>,
            \<lparr>priority = Some 0, needs = [], groups = [(''*'', [''make''])],
              keys = \<lparr>project = ''y'', action = ''build'', group = ''*''\<rparr>\<rparr>]
   \<and> getUniquePriorities
        [\<lparr>priority = Some 5, needs = [], groups = [(''*'', [''make''])],
              keys = \<lparr>project = ''x'', action = ''build'', group = ''*''\<rparr>\<rparr>,
         \<lparr>priority = Some 0, needs = [], groups = [(''*'', [''make''])],
              keys = \<lparr>project = ''y'', action = ''build'', group = ''*''\<rparr>\<rparr>] = [5, 0]
   \<and> map_sum id (map project)
        (actions (\<lambda>c a. [''x'', ''y'']) 3 (runAction remoteDir exits0 twoTiers) [] twoTiers
           ''build'' ''*'' [''x'', ''y'']) = Inr [''x'', ''y'']"
proof -
  have sel: "getProjectsToRunActionIn (\<lambda>c a. [''x'', ''y'']) 3 twoTiers ''build'' ''*'' [''x'', ''y'']
     = Inr [\<lparr>priority = Some 5, needs = [], groups = [(''*'', [''make''])],
              keys = \<lparr>project = ''x'', action = ''build'', group = ''*''\<rparr>\<rparr>,
            \<lparr>priority = Some 0, needs = [], groups = [(''*'', [''make''])],
              keys = \<lparr>project = ''y'', action = ''build'', group = ''*''\<rparr>\<rparr>]"
    by (simp add: selection_defs twoTiers_def numeral_3_eq_3)
  have tiers: "getUniquePriorities
        [\<lparr>priority = Some 5, needs = [], groups = [(''*'', [''make''])],
              keys = \<lparr>project = ''x'', action = ''build'', group = ''*''\<rparr>\<rparr>,
         \<lparr>priority = Some 0, needs = [], groups = [(''*'', [''make''])],
              keys = \<lparr>project = ''y'', action = ''build'', group = ''*''\<rparr>\<rparr>] = [5, 0]"
    by (simp add: getUniquePriorities_def effectivePriority_def)
  have out: "map_sum id (map project)
        (actions (\<lambda>c a. [''x'', ''y'']) 3 (runAction remoteDir exits0 twoTiers) [] twoTiers
           ''build'' ''*'' [''x'', ''y'']) = Inr [''x'', ''y'']"
    unfolding actions_def sel
    by (simp add: run_defs twoTiers_def exits0_def)
  show ?thesis using sel tiers out by simp
qed

text \<open>
  C6. The priority of a work item is that of its action, and 0 when the action has none:
  the default priority of the project is not read. For a project of default priority 5
  whose action has no priority the older runner computes 5, the work item has none and
  its tier is 0.
\<close>

theorem project_default_priority_not_read:
  "getProjectsToRunActionIn (\<lambda>c a. [''p'']) 3 defaultPriority ''build'' ''*'' [''p'']
     = Inr [\<lparr>priority = None, needs = [], groups = [(''*'', [''make''])],
              keys = \<lparr>project = ''p'', action = ''build'', group = ''*''\<rparr>\<rparr>]
   \<and> effectivePriority
        \<lparr>priority = None, needs = [], groups = [(''*'', [''make''])],
              keys = \<lparr>project = ''p'', action = ''build'', group = ''*''\<rparr>\<rparr> = 0
   \<and> map (\<lambda>(name, p). map (\<lambda>(act, a). runnerPriority p a) (Project.actions p)) (projects defaultPriority)
       = [[5]]"
  by (simp add: selection_defs defaultPriority_def numeral_3_eq_3 effectivePriority_def
      runnerPriority_def)

section \<open>One work item per project\<close>

text \<open>
  C9, as the code has it. The selection returns at most one work item per project name.
  When the closure reaches a project more than once, the item kept is the first of that
  project in the list the closure builds (it has its keys, so its group, its priority and
  its groups), and every project of that list is kept. The list is the closures of the
  selected projects in the order of the configuration, filtered and rebound; the closure
  of an item with needs is the item followed by the closures of its needs from the last
  need to the first. So among the paths through different needs of one item it is the
  path through the need listed last that binds, not the one the walk takes first.
\<close>

theorem first_listed_binding_wins:
  assumes "getProjectsToRunActionIn topo depth config act g ps = Inr items"
  shows "distinct (map (\<lambda>a. project (keys a)) items) \<and>
    (\<exists>found closures.
       map (resolveProjectDependencies depth config) (directActions config act g ps) = map Inr closures \<and>
       found = map (rebound config act g)
                 (filter (\<lambda>a. hasGroup a g \<or> hasGroup a ''*'') (concat closures)) \<and>
       (\<lambda>a. project (keys a)) ` set items = (\<lambda>a. project (keys a)) ` set found \<and>
       (\<forall>a \<in> set items. \<exists>b.
          List.find (\<lambda>b. project (keys b) = project (keys a)) found = Some b \<and>
          keys a = keys b \<and> priority a = priority b \<and> groups a = groups b)) \<and>
    (\<forall>d a r. resolveProjectDependencies (Suc d) config a = Inr r \<and> needs a \<noteq> [] \<longrightarrow>
       (\<exists>rs. map (visit d config a) (needs a) = map Inr rs \<and> r = a # concat (rev rs)))"
proof -
  obtain found where f: "discovered depth (directActions config act g ps) config g act = Inr found"
    using assms
    by (auto simp: getProjectsToRunActionIn_def resolveDependenciesForActions_def split: sum.splits)
  obtain all0 where all0: "resolveAll depth config (directActions config act g ps) = Inr all0"
    using f by (auto simp: discovered_def split: sum.splits)
  have rb: "rebindGroups config g act (filter (\<lambda>a. hasGroup a g \<or> hasGroup a ''*'') all0) = Inr found"
    using f all0 by (simp add: discovered_def)
  obtain closures where
    cl: "map (resolveProjectDependencies depth config) (directActions config act g ps) = map Inr closures"
    and c: "all0 = concat closures"
    using resolveAll_concat[OF all0] by blast
  have found: "found = map (rebound config act g)
                 (filter (\<lambda>a. hasGroup a g \<or> hasGroup a ''*'') (concat closures))"
    using rebindGroups_map[OF rb] c by simp
  define u where "u = uniqBy found (\<lambda>a. project (keys a))"
  obtain ns where items: "items = foldl (rewire config act) u ns"
    using assms f
    by (auto simp: getProjectsToRunActionIn_def resolveDependenciesForActions_def u_def
        split: sum.splits)
  have k: "map keys items = map keys u" and p: "map priority items = map priority u"
    and gs: "map groups items = map groups u"
    unfolding items by (rule foldl_rewire_same)+
  have mp: "map (\<lambda>a. project (keys a)) items = map (\<lambda>a. project (keys a)) u"
    using arg_cong[OF k, of "map project"] by (simp add: comp_def)
  have d: "distinct (map (\<lambda>a. project (keys a)) u)"
    using uniqByFrom_distinct_aux[of "\<lambda>a. project (keys a)" "[]" found] by (simp add: u_def uniqBy_def)
  have img: "(\<lambda>a. project (keys a)) ` set items = (\<lambda>a. project (keys a)) ` set found"
  proof -
    have "(\<lambda>a. project (keys a)) ` set items = set (map (\<lambda>a. project (keys a)) items)" by simp
    also have "\<dots> = (\<lambda>a. project (keys a)) ` set u" unfolding mp by simp
    also have "\<dots> = (\<lambda>a. project (keys a)) ` set found"
      using uniqByFrom_keys[of "\<lambda>a. project (keys a)" "[]" found] by (simp add: u_def uniqBy_def)
    finally show ?thesis .
  qed
  have first: "\<exists>b. List.find (\<lambda>b. project (keys b) = project (keys a)) found = Some b \<and>
          keys a = keys b \<and> priority a = priority b \<and> groups a = groups b"
    if "a \<in> set items" for a
  proof -
    from that have "\<exists>i<length items. items ! i = a"
      by (simp only: in_set_conv_nth)
    then obtain i where i: "i < length items" "items ! i = a"
      by blast
    have len: "length u = length items" using arg_cong[OF k, of length] by simp
    have same: "keys a = keys (u ! i)" "priority a = priority (u ! i)" "groups a = groups (u ! i)"
      using i len arg_cong[OF k, of "\<lambda>xs. xs ! i"] arg_cong[OF p, of "\<lambda>xs. xs ! i"]
        arg_cong[OF gs, of "\<lambda>xs. xs ! i"] by auto
    have "u ! i \<in> set (uniqByFrom [] (\<lambda>a. project (keys a)) found)"
      using i len by (simp add: u_def uniqBy_def)
    from uniqByFrom_first[OF this]
    have "List.find (\<lambda>b. project (keys b) = project (keys (u ! i))) found = Some (u ! i)"
      by simp
    then show ?thesis using same by simp
  qed
  have c1: "distinct (map (\<lambda>a. project (keys a)) items)"
    using d mp by simp
  have c2: "\<exists>found closures.
       map (resolveProjectDependencies depth config) (directActions config act g ps) = map Inr closures \<and>
       found = map (rebound config act g)
                 (filter (\<lambda>a. hasGroup a g \<or> hasGroup a ''*'') (concat closures)) \<and>
       (\<lambda>a. project (keys a)) ` set items = (\<lambda>a. project (keys a)) ` set found \<and>
       (\<forall>a \<in> set items. \<exists>b.
          List.find (\<lambda>b. project (keys b) = project (keys a)) found = Some b \<and>
          keys a = keys b \<and> priority a = priority b \<and> groups a = groups b)"
  proof (intro exI[of _ found] exI[of _ closures] conjI)
    show "\<forall>a \<in> set items. \<exists>b.
          List.find (\<lambda>b. project (keys b) = project (keys a)) found = Some b \<and>
          keys a = keys b \<and> priority a = priority b \<and> groups a = groups b"
      using first by blast
  qed (rule cl, rule found, rule img)
  have c3: "\<forall>d a r. resolveProjectDependencies (Suc d) config a = Inr r \<and> needs a \<noteq> [] \<longrightarrow>
       (\<exists>rs. map (visit d config a) (needs a) = map Inr rs \<and> r = a # concat (rev rs))"
    using resolve_order by blast
  show ?thesis using c1 c2 c3 by (intro conjI)
qed

text \<open>
  The theorem on the diamond: \<open>D\<close> is kept once, with the priority it inherits through
  \<open>C\<close>, the last need of \<open>A\<close>, whose closure stands before that of \<open>B\<close>.
\<close>

theorem first_listed_binding_wins_witness:
  "getProjectsToRunActionIn (\<lambda>c a. [''D'', ''B'', ''C'', ''A'']) 5 diamond ''build'' ''*'' [''A'']
     = Inr [\<lparr>priority = None, needs = [''B'', ''C''], groups = [(''*'', [''make''])],
              keys = \<lparr>project = ''A'', action = ''build'', group = ''*''\<rparr>\<rparr>,
            \<lparr>priority = Some 2, needs = [''D''], groups = [(''*'', [''make''])],
              keys = \<lparr>project = ''C'', action = ''build'', group = ''*''\<rparr>\<rparr>,
            \<lparr>priority = Some 2, needs = [], groups = [(''*'', [''make''])],
              keys = \<lparr>project = ''D'', action = ''build'', group = ''*''\<rparr>\<rparr>,
            \<lparr>priority = Some 1, needs = [''D''], groups = [(''*'', [''make''])],
              keys = \<lparr>project = ''B'', action = ''build'', group = ''*''\<rparr>\<rparr>]
   \<and> distinct (map (\<lambda>a. project (keys a))
          [\<lparr>priority = None, needs = [''B'', ''C''], groups = [(''*'', [''make''])],
              keys = \<lparr>project = ''A'', action = ''build'', group = ''*''\<rparr>\<rparr>,
            \<lparr>priority = Some 2, needs = [''D''], groups = [(''*'', [''make''])],
              keys = \<lparr>project = ''C'', action = ''build'', group = ''*''\<rparr>\<rparr>,
            \<lparr>priority = Some 2, needs = [], groups = [(''*'', [''make''])],
              keys = \<lparr>project = ''D'', action = ''build'', group = ''*''\<rparr>\<rparr>,
            \<lparr>priority = Some 1, needs = [''D''], groups = [(''*'', [''make''])],
              keys = \<lparr>project = ''B'', action = ''build'', group = ''*''\<rparr>\<rparr>])
   \<and> map (visit 4 diamond
          (\<lparr>priority = None, needs = [''B'', ''C''], groups = [(''*'', [''make''])],
              keys = \<lparr>project = ''A'', action = ''build'', group = ''*''\<rparr>\<rparr>)) [''B'', ''C'']
     = map Inr [[\<lparr>priority = Some 1, needs = [''D''], groups = [(''*'', [''make''])],
              keys = \<lparr>project = ''B'', action = ''build'', group = ''*''\<rparr>\<rparr>,
            \<lparr>priority = Some 1, needs = [], groups = [(''*'', [''make''])],
              keys = \<lparr>project = ''D'', action = ''build'', group = ''*''\<rparr>\<rparr>],
           [\<lparr>priority = Some 2, needs = [''D''], groups = [(''*'', [''make''])],
              keys = \<lparr>project = ''C'', action = ''build'', group = ''*''\<rparr>\<rparr>,
            \<lparr>priority = Some 2, needs = [], groups = [(''*'', [''make''])],
              keys = \<lparr>project = ''D'', action = ''build'', group = ''*''\<rparr>\<rparr>]]
   \<and> resolveProjectDependencies 5 diamond
        (\<lparr>priority = None, needs = [''B'', ''C''], groups = [(''*'', [''make''])],
              keys = \<lparr>project = ''A'', action = ''build'', group = ''*''\<rparr>\<rparr>)
     = Inr [\<lparr>priority = None, needs = [''B'', ''C''], groups = [(''*'', [''make''])],
              keys = \<lparr>project = ''A'', action = ''build'', group = ''*''\<rparr>\<rparr>,
            \<lparr>priority = Some 2, needs = [''D''], groups = [(''*'', [''make''])],
              keys = \<lparr>project = ''C'', action = ''build'', group = ''*''\<rparr>\<rparr>,
            \<lparr>priority = Some 2, needs = [], groups = [(''*'', [''make''])],
              keys = \<lparr>project = ''D'', action = ''build'', group = ''*''\<rparr>\<rparr>,
            \<lparr>priority = Some 1, needs = [''D''], groups = [(''*'', [''make''])],
              keys = \<lparr>project = ''B'', action = ''build'', group = ''*''\<rparr>\<rparr>,
            \<lparr>priority = Some 1, needs = [], groups = [(''*'', [''make''])],
              keys = \<lparr>project = ''D'', action = ''build'', group = ''*''\<rparr>\<rparr>]"
proof -
  have sel: "getProjectsToRunActionIn (\<lambda>c a. [''D'', ''B'', ''C'', ''A'']) 5 diamond ''build'' ''*'' [''A'']
     = Inr [\<lparr>priority = None, needs = [''B'', ''C''], groups = [(''*'', [''make''])],
              keys = \<lparr>project = ''A'', action = ''build'', group = ''*''\<rparr>\<rparr>,
            \<lparr>priority = Some 2, needs = [''D''], groups = [(''*'', [''make''])],
              keys = \<lparr>project = ''C'', action = ''build'', group = ''*''\<rparr>\<rparr>,
            \<lparr>priority = Some 2, needs = [], groups = [(''*'', [''make''])],
              keys = \<lparr>project = ''D'', action = ''build'', group = ''*''\<rparr>\<rparr>,
            \<lparr>priority = Some 1, needs = [''D''], groups = [(''*'', [''make''])],
              keys = \<lparr>project = ''B'', action = ''build'', group = ''*''\<rparr>\<rparr>]"
    by (simp add: selection_defs diamond_def eval_nat_numeral)
  have res: "resolveProjectDependencies 5 diamond
        (\<lparr>priority = None, needs = [''B'', ''C''], groups = [(''*'', [''make''])],
              keys = \<lparr>project = ''A'', action = ''build'', group = ''*''\<rparr>\<rparr>)
     = Inr [\<lparr>priority = None, needs = [''B'', ''C''], groups = [(''*'', [''make''])],
              keys = \<lparr>project = ''A'', action = ''build'', group = ''*''\<rparr>\<rparr>,
            \<lparr>priority = Some 2, needs = [''D''], groups = [(''*'', [''make''])],
              keys = \<lparr>project = ''C'', action = ''build'', group = ''*''\<rparr>\<rparr>,
            \<lparr>priority = Some 2, needs = [], groups = [(''*'', [''make''])],
              keys = \<lparr>project = ''D'', action = ''build'', group = ''*''\<rparr>\<rparr>,
            \<lparr>priority = Some 1, needs = [''D''], groups = [(''*'', [''make''])],
              keys = \<lparr>project = ''B'', action = ''build'', group = ''*''\<rparr>\<rparr>,
            \<lparr>priority = Some 1, needs = [], groups = [(''*'', [''make''])],
              keys = \<lparr>project = ''D'', action = ''build'', group = ''*''\<rparr>\<rparr>]"
    by (simp add: selection_defs diamond_def eval_nat_numeral)
  have vis: "map (visit 4 diamond
          (\<lparr>priority = None, needs = [''B'', ''C''], groups = [(''*'', [''make''])],
              keys = \<lparr>project = ''A'', action = ''build'', group = ''*''\<rparr>\<rparr>)) [''B'', ''C'']
     = map Inr [[\<lparr>priority = Some 1, needs = [''D''], groups = [(''*'', [''make''])],
              keys = \<lparr>project = ''B'', action = ''build'', group = ''*''\<rparr>\<rparr>,
            \<lparr>priority = Some 1, needs = [], groups = [(''*'', [''make''])],
              keys = \<lparr>project = ''D'', action = ''build'', group = ''*''\<rparr>\<rparr>],
           [\<lparr>priority = Some 2, needs = [''D''], groups = [(''*'', [''make''])],
              keys = \<lparr>project = ''C'', action = ''build'', group = ''*''\<rparr>\<rparr>,
            \<lparr>priority = Some 2, needs = [], groups = [(''*'', [''make''])],
              keys = \<lparr>project = ''D'', action = ''build'', group = ''*''\<rparr>\<rparr>]]"
    by (simp add: visit_def selection_defs diamond_def eval_nat_numeral)
  note inst = first_listed_binding_wins[OF sel]
  have "distinct (map (\<lambda>a. project (keys a))
          [\<lparr>priority = None, needs = [''B'', ''C''], groups = [(''*'', [''make''])],
              keys = \<lparr>project = ''A'', action = ''build'', group = ''*''\<rparr>\<rparr>,
            \<lparr>priority = Some 2, needs = [''D''], groups = [(''*'', [''make''])],
              keys = \<lparr>project = ''C'', action = ''build'', group = ''*''\<rparr>\<rparr>,
            \<lparr>priority = Some 2, needs = [], groups = [(''*'', [''make''])],
              keys = \<lparr>project = ''D'', action = ''build'', group = ''*''\<rparr>\<rparr>,
            \<lparr>priority = Some 1, needs = [''D''], groups = [(''*'', [''make''])],
              keys = \<lparr>project = ''B'', action = ''build'', group = ''*''\<rparr>\<rparr>])"
    using inst by blast
  then show ?thesis using sel res vis by blast
qed

text \<open>
  C9 as stated fails in its second part: the walk of \<^verbatim>\<open>resolveProjectDependencies\<close> from
  \<open>A\<close> reaches \<open>D\<close> through \<open>B\<close> first, where it inherits priority 1, and the work item of
  \<open>D\<close> has priority 2.
\<close>

theorem first_reached_binding_is_not_kept:
  "map (\<lambda>a. (project (keys a), priority a))
     (concat (map (reached 5 diamond) (directActions diamond ''build'' ''*'' [''A''])))
     = [(''A'', None), (''B'', Some 1), (''D'', Some 1), (''C'', Some 2), (''D'', Some 2)]
   \<and> map_sum id (map (\<lambda>a. (project (keys a), priority a)))
        (getProjectsToRunActionIn (\<lambda>c a. [''D'', ''B'', ''C'', ''A'']) 5 diamond ''build'' ''*'' [''A''])
     = Inr [(''A'', None), (''C'', Some 2), (''D'', Some 2), (''B'', Some 1)]"
  by (simp add: selection_defs diamond_def eval_nat_numeral)

section \<open>Errors of the selection\<close>

text \<open>
  C7, as the code has it. The selection has no error of its own. A name of the project
  subset of which no declaration has the action (an undeclared name among them) is
  ignored: the selection is the one without it. When the closure of a selected project
  reaches an item with a dangling need, the selection fails, and \<^verbatim>\<open>actions\<close> fails with
  the same error whatever the invoker and the schedule, so before anything is launched.
\<close>

theorem selection_failures:
  "((\<forall>p. (x, p) \<in> set (projects config) \<longrightarrow> map_of (Project.actions p) act = None) \<longrightarrow>
      getProjectsToRunActionIn topo depth config act g (x # ps)
        = getProjectsToRunActionIn topo depth config act g ps)
   \<and> (a \<in> set (directActions config act g ps) \<and> (needed config)\<^sup>*\<^sup>* a b \<and> dangling config b \<longrightarrow>
        (\<exists>e. getProjectsToRunActionIn topo depth config act g ps = Inl e \<and>
             actions topo depth runActionFn schedule config act g ps = Inl e))"
proof (intro conjI impI)
  assume "\<forall>p. (x, p) \<in> set (projects config) \<longrightarrow> map_of (Project.actions p) act = None"
  from directActions_ignores[OF this]
  show "getProjectsToRunActionIn topo depth config act g (x # ps)
        = getProjectsToRunActionIn topo depth config act g ps"
    by (simp add: getProjectsToRunActionIn_def)
next
  assume h: "a \<in> set (directActions config act g ps) \<and> (needed config)\<^sup>*\<^sup>* a b \<and> dangling config b"
  then have "isl (resolveProjectDependencies depth config a)"
    by (auto intro: resolve_reaches_dangling)
  with h have "isl (resolveAll depth config (directActions config act g ps))"
    by (auto intro: resolveAll_fails)
  then obtain e where "resolveAll depth config (directActions config act g ps) = Inl e"
    by (cases "resolveAll depth config (directActions config act g ps)") auto
  then have "getProjectsToRunActionIn topo depth config act g ps = Inl e"
    by (simp add: getProjectsToRunActionIn_def resolveDependenciesForActions_def discovered_def)
  then show "\<exists>e. getProjectsToRunActionIn topo depth config act g ps = Inl e \<and>
             actions topo depth runActionFn schedule config act g ps = Inl e"
    by (simp add: actions_def)
qed

text \<open>
  The theorem at three inputs: an undeclared name in the subset changes nothing; a need
  that is not declared is the TypeError of reading \<^verbatim>\<open>.actions\<close> of undefined; a need
  without the action is a recursion that ends at the depth of the stack.
\<close>

theorem selection_failures_witness:
  "getProjectsToRunActionIn (\<lambda>c a. [''x'', ''y'']) 3 twoTiers ''build'' ''*'' [''ghost'', ''x'']
     = getProjectsToRunActionIn (\<lambda>c a. [''x'', ''y'']) 3 twoTiers ''build'' ''*'' [''x'']
   \<and> getProjectsToRunActionIn (\<lambda>c a. [''A'']) 3 ghostNeed ''build'' ''*'' [''A''] = Inl TypeError
   \<and> actions (\<lambda>c a. [''A'']) 3 (runAction remoteDir exits0 ghostNeed) [] ghostNeed ''build'' ''*'' [''A'']
       = Inl TypeError
   \<and> getProjectsToRunActionIn (\<lambda>c a. [''A'', ''B'']) 3 noAction ''build'' ''*'' [''A''] = Inl RangeError
   \<and> actions (\<lambda>c a. [''A'', ''B'']) 3 (runAction remoteDir exits0 noAction) [] noAction ''build'' ''*'' [''A'']
       = Inl RangeError"
proof -
  let ?A = "\<lparr>priority = None, needs = [''ghost''], groups = [(''*'', [''make''])],
             keys = \<lparr>project = ''A'', action = ''build'', group = ''*''\<rparr>\<rparr>"
  let ?B = "\<lparr>priority = None, needs = [''B''], groups = [(''*'', [''make''])],
             keys = \<lparr>project = ''A'', action = ''build'', group = ''*''\<rparr>\<rparr>"
  have ghost: "\<forall>p. (''ghost'', p) \<in> set (projects twoTiers) \<longrightarrow> map_of (Project.actions p) ''build'' = None"
    by (simp add: twoTiers_def)
  have a: "?A \<in> set (directActions ghostNeed ''build'' ''*'' [''A''])"
    by (simp add: selection_defs ghostNeed_def)
  have da: "dangling ghostNeed ?A"
    by (simp add: dangling_def ghostNeed_def)
  have b: "?B \<in> set (directActions noAction ''build'' ''*'' [''A''])"
    by (simp add: selection_defs noAction_def)
  have db: "dangling noAction ?B"
    by (simp add: dangling_def noAction_def)
  have e1: "getProjectsToRunActionIn (\<lambda>c a. [''A'']) 3 ghostNeed ''build'' ''*'' [''A''] = Inl TypeError"
    by (simp add: selection_defs ghostNeed_def numeral_3_eq_3)
  have e2: "getProjectsToRunActionIn (\<lambda>c a. [''A'', ''B'']) 3 noAction ''build'' ''*'' [''A''] = Inl RangeError"
    by (simp add: selection_defs noAction_def numeral_3_eq_3)
  from selection_failures[where x="''ghost''" and config=twoTiers and act="''build''"
      and topo="\<lambda>c a. [''x'', ''y'']" and depth=3 and g="''*''" and ps="[''x'']"
      and a="?A" and b="?A"] ghost
  have p1: "getProjectsToRunActionIn (\<lambda>c a. [''x'', ''y'']) 3 twoTiers ''build'' ''*'' [''ghost'', ''x'']
     = getProjectsToRunActionIn (\<lambda>c a. [''x'', ''y'']) 3 twoTiers ''build'' ''*'' [''x'']"
    by blast
  from selection_failures[where config=ghostNeed and act="''build''"
      and topo="\<lambda>c a. [''A'']" and depth=3 and g="''*''" and ps="[''A'']"
      and a="?A" and b="?A" and runActionFn="runAction remoteDir exits0 ghostNeed" and schedule="[]"] a da e1
  have p2: "actions (\<lambda>c a. [''A'']) 3 (runAction remoteDir exits0 ghostNeed) [] ghostNeed ''build'' ''*'' [''A'']
       = Inl TypeError"
    by auto
  from selection_failures[where config=noAction and act="''build''"
      and topo="\<lambda>c a. [''A'', ''B'']" and depth=3 and g="''*''" and ps="[''A'']"
      and a="?B" and b="?B" and runActionFn="runAction remoteDir exits0 noAction" and schedule="[]"] b db e2
  have p3: "actions (\<lambda>c a. [''A'', ''B'']) 3 (runAction remoteDir exits0 noAction) [] noAction ''build'' ''*'' [''A'']
       = Inl RangeError"
    by auto
  show ?thesis using p1 p2 p3 e1 e2 by simp
qed

text \<open>
  C7 as stated fails: with \<open>ghost\<close> in the subset and not declared the selection returns
  the work item of \<open>x\<close>, and with \<open>B\<close> in the subset and without the action it returns
  no work item; neither is an error.
\<close>

theorem unknown_subset_name_is_no_error:
  "map_of (projects twoTiers) ''ghost'' = None
   \<and> getProjectsToRunActionIn (\<lambda>c a. [''x'', ''y'']) 3 twoTiers ''build'' ''*'' [''ghost'', ''x'']
     = Inr [\<lparr>priority = Some 5, needs = [], groups = [(''*'', [''make''])],
              keys = \<lparr>project = ''x'', action = ''build'', group = ''*''\<rparr>\<rparr>]
   \<and> map_option (\<lambda>p. map_of (Project.actions p) ''build'') (map_of (projects noAction) ''B'') = Some None
   \<and> getProjectsToRunActionIn (\<lambda>c a. [''A'', ''B'']) 3 noAction ''build'' ''*'' [''B''] = Inr []"
  by (simp add: selection_defs twoTiers_def noAction_def numeral_3_eq_3)

section \<open>Rewiring of the needs\<close>

text \<open>
  C5, as the code has it. When the order the graph resolver returns lists every project
  that declares the action, each after the projects it needs, one pass over the reversed
  order rewires every chain: after the selection no work item needs a project without
  the requested group. No project is excluded by the rewiring: every item the closure
  reaches from a selected project, if it has the requested group or \<open>*\<close>, is a work item
  of the run, bound to the requested group when its project has it and to \<open>*\<close> otherwise.
\<close>

theorem rewiring_single_pass:
  assumes sel: "getProjectsToRunActionIn topo depth config act g ps = Inr items"
    and dist: "distinct (map fst (projects config))"
    and order: "needsFollow config act (rev (topo config act))"
    and cover: "\<forall>(name, p) \<in> set (projects config).
                  map_of (Project.actions p) act \<noteq> None \<longrightarrow> name \<in> set (topo config act)"
  shows "(\<forall>a \<in> set items. \<forall>n \<in> set (needs a). supports config act g n) \<and>
    (\<forall>a0 \<in> set (directActions config act g ps). \<forall>b.
        (needed config)\<^sup>*\<^sup>* a0 b \<and> (hasGroup b g \<or> hasGroup b ''*'') \<longrightarrow>
        (\<exists>a \<in> set items.
           keys a = \<lparr>project = project (keys b), action = act,
                      group = (if supports config act g (project (keys b)) then g else ''*'')\<rparr>))"
proof -
  let ?L = "rev (topo config act)"
  let ?viable = "\<lambda>a. hasGroup a g \<or> hasGroup a ''*''"
  obtain found where fnd: "discovered depth (directActions config act g ps) config g act = Inr found"
    using sel
    by (auto simp: getProjectsToRunActionIn_def resolveDependenciesForActions_def split: sum.splits)
  obtain all0 where all0: "resolveAll depth config (directActions config act g ps) = Inr all0"
    using fnd by (auto simp: discovered_def split: sum.splits)
  have rb: "rebindGroups config g act (filter ?viable all0) = Inr found"
    using fnd all0 by (simp add: discovered_def)
  have found: "found = map (rebound config act g) (filter ?viable all0)"
    using rebindGroups_map[OF rb] .
  define u where "u = uniqBy found (\<lambda>a. project (keys a))"
  obtain N where N: "withoutGroup config act g ?L = Inr N"
    and items: "items = foldl (rewire config act) u N"
    using sel fnd
    by (auto simp: getProjectsToRunActionIn_def resolveDependenciesForActions_def u_def
        split: sum.splits)
  have Nf: "N = filter (\<lambda>n. \<not> supports config act g n) ?L"
    using withoutGroup_filter[OF N] .
  have decl_all: "\<forall>b \<in> set all0. declaredItem config act b"
    by (rule resolveAll_declared[OF _ all0]) (simp add: directActions_declared[OF dist])
  have decl_found: "\<forall>b \<in> set found. declaredItem config act b"
    using decl_all unfolding found by (auto intro: rebound_declared)
  have usub: "set u \<subseteq> set found"
    unfolding u_def uniqBy_def by (rule uniqByFrom_subset)
  have cover': "\<forall>(name, p) \<in> set (projects config).
                  map_of (Project.actions p) act \<noteq> None \<longrightarrow> name \<in> set ?L"
    using cover by simp
  have pre: "\<forall>a \<in> set u. \<forall>n \<in> set (needs a). n \<in> set ?L \<or> supports config act g n"
  proof (intro ballI)
    fix a n
    assume "a \<in> set u" and n: "n \<in> set (needs a)"
    then have "declaredItem config act a" using usub decl_found by blast
    from declared_needs_listed[OF this cover' order] n
    show "n \<in> set ?L \<or> supports config act g n" by blast
  qed
  have part1: "\<forall>a \<in> set items. \<forall>n \<in> set (needs a). supports config act g n"
    unfolding items Nf by (rule rewire_pass[OF order pre])
  have kset: "keys ` set items = keys ` set u"
  proof -
    have "map keys items = map keys u" unfolding items by (rule foldl_rewire_same(1))
    then have "set (map keys items) = set (map keys u)" by simp
    then show ?thesis by simp
  qed
  have part2: "\<exists>a \<in> set items.
           keys a = \<lparr>project = project (keys b), action = act,
                      group = (if supports config act g (project (keys b)) then g else ''*'')\<rparr>"
    if a0: "a0 \<in> set (directActions config act g ps)"
      and reach: "(needed config)\<^sup>*\<^sup>* a0 b" and viable: "hasGroup b g \<or> hasGroup b ''*''"
    for a0 b
  proof -
    obtain r' where r': "resolveProjectDependencies depth config a0 = Inr r'" and sub: "set r' \<subseteq> set all0"
      using resolveAll_contains[OF all0 a0] by blast
    have "b \<in> set r'" by (rule resolve_reaches[OF reach r'])
    then have "b \<in> set (filter ?viable all0)" using sub viable by auto
    then have "rebound config act g b \<in> set found" unfolding found by simp
    moreover have "project (keys (rebound config act g b)) = project (keys b)"
      by (simp add: rebound_def)
    ultimately have "project (keys b) \<in> (\<lambda>a. project (keys a)) ` set found"
      by (metis (no_types, lifting) image_eqI)
    also have "(\<lambda>a. project (keys a)) ` set found = (\<lambda>a. project (keys a)) ` set u"
      using uniqByFrom_keys[of "\<lambda>a. project (keys a)" "[]" found] by (simp add: u_def uniqBy_def)
    finally obtain u0 where u0: "u0 \<in> set u" and pu0: "project (keys u0) = project (keys b)"
      by auto
    have "u0 \<in> set found" using u0 usub by blast
    then obtain c where c: "c \<in> set all0" and u0c: "u0 = rebound config act g c"
      unfolding found by auto
    have actc: "action (keys c) = act" using decl_all c by (simp add: declaredItem_def)
    have pc: "project (keys c) = project (keys b)" using pu0 u0c by (simp add: rebound_def)
    have "keys u0 = \<lparr>project = project (keys b), action = act,
                      group = (if supports config act g (project (keys b)) then g else ''*'')\<rparr>"
      unfolding u0c rebound_keys actc pc ..
    moreover have "keys u0 \<in> keys ` set items" using u0 kset by blast
    ultimately show ?thesis by force
  qed
  show ?thesis using part1 part2 by blast
qed

text \<open>
  The theorem on the chain of four: \<open>A\<close> ends up needing \<open>D\<close>, two hops away, and \<open>B\<close> is
  a work item bound to \<open>*\<close>.
\<close>

theorem rewiring_single_pass_witness:
  "getProjectsToRunActionIn (\<lambda>c a. [''D'', ''C'', ''B'', ''A'']) 5 fallbackChain ''build'' ''g'' [''A'']
     = Inr [\<lparr>priority = None, needs = [''D''], groups = [(''g'', [''make'', ''a''])],
              keys = \<lparr>project = ''A'', action = ''build'', group = ''g''\<rparr>\<rparr>,
            \<lparr>priority = None, needs = [''D''], groups = [(''*'', [''make'', ''b''])],
              keys = \<lparr>project = ''B'', action = ''build'', group = ''*''\<rparr>\<rparr>,
            \<lparr>priority = None, needs = [''D''], groups = [(''*'', [''make'', ''c''])],
              keys = \<lparr>project = ''C'', action = ''build'', group = ''*''\<rparr>\<rparr>,
            \<lparr>priority = None, needs = [], groups = [(''g'', [''make'', ''d''])],
              keys = \<lparr>project = ''D'', action = ''build'', group = ''g''\<rparr>\<rparr>]
   \<and> supports fallbackChain ''build'' ''g'' ''D''
   \<and> (\<exists>a \<in> set [\<lparr>priority = None, needs = [''D''], groups = [(''g'', [''make'', ''a''])],
              keys = \<lparr>project = ''A'', action = ''build'', group = ''g''\<rparr>\<rparr>,
            \<lparr>priority = None, needs = [''D''], groups = [(''*'', [''make'', ''b''])],
              keys = \<lparr>project = ''B'', action = ''build'', group = ''*''\<rparr>\<rparr>,
            \<lparr>priority = None, needs = [''D''], groups = [(''*'', [''make'', ''c''])],
              keys = \<lparr>project = ''C'', action = ''build'', group = ''*''\<rparr>\<rparr>,
            \<lparr>priority = None, needs = [], groups = [(''g'', [''make'', ''d''])],
              keys = \<lparr>project = ''D'', action = ''build'', group = ''g''\<rparr>\<rparr>].
          keys a = \<lparr>project = ''B'', action = ''build'', group = ''*''\<rparr>)"
proof -
  have sel: "getProjectsToRunActionIn (\<lambda>c a. [''D'', ''C'', ''B'', ''A'']) 5 fallbackChain ''build'' ''g'' [''A'']
      = Inr [\<lparr>priority = None, needs = [''D''], groups = [(''g'', [''make'', ''a''])],
              keys = \<lparr>project = ''A'', action = ''build'', group = ''g''\<rparr>\<rparr>,
            \<lparr>priority = None, needs = [''D''], groups = [(''*'', [''make'', ''b''])],
              keys = \<lparr>project = ''B'', action = ''build'', group = ''*''\<rparr>\<rparr>,
            \<lparr>priority = None, needs = [''D''], groups = [(''*'', [''make'', ''c''])],
              keys = \<lparr>project = ''C'', action = ''build'', group = ''*''\<rparr>\<rparr>,
            \<lparr>priority = None, needs = [], groups = [(''g'', [''make'', ''d''])],
              keys = \<lparr>project = ''D'', action = ''build'', group = ''g''\<rparr>\<rparr>]"
    by (simp add: selection_defs fallbackChain_def eval_nat_numeral)
  have dist: "distinct (map fst (projects fallbackChain))"
    by (simp add: fallbackChain_def)
  have order: "needsFollow fallbackChain ''build'' (rev ((\<lambda>c a. [''D'', ''C'', ''B'', ''A'']) fallbackChain ''build''))"
    by (simp add: fallbackChain_def configNeeds_def)
  have cover: "\<forall>(name, p) \<in> set (projects fallbackChain).
                  map_of (Project.actions p) ''build'' \<noteq> None \<longrightarrow> name \<in> set ((\<lambda>c a. [''D'', ''C'', ''B'', ''A'']) fallbackChain ''build'')"
    by (simp add: fallbackChain_def)
  have a0: "\<lparr>priority = None, needs = [''B''], groups = [(''g'', [''make'', ''a''])],
              keys = \<lparr>project = ''A'', action = ''build'', group = ''g''\<rparr>\<rparr>
      \<in> set (directActions fallbackChain ''build'' ''g'' [''A''])"
    by (simp add: selection_defs fallbackChain_def)
  have "needed fallbackChain
          \<lparr>priority = None, needs = [''B''], groups = [(''g'', [''make'', ''a''])],
              keys = \<lparr>project = ''A'', action = ''build'', group = ''g''\<rparr>\<rparr>
          \<lparr>priority = None, needs = [''C''], groups = [(''*'', [''make'', ''b''])],
              keys = \<lparr>project = ''B'', action = ''build'', group = ''g''\<rparr>\<rparr>"
    unfolding needed_def
    by (rule exI[of _ "''B''"]) (simp add: fallbackChain_def neededItem_def)
  then have reach: "(needed fallbackChain)\<^sup>*\<^sup>*
          \<lparr>priority = None, needs = [''B''], groups = [(''g'', [''make'', ''a''])],
              keys = \<lparr>project = ''A'', action = ''build'', group = ''g''\<rparr>\<rparr>
          \<lparr>priority = None, needs = [''C''], groups = [(''*'', [''make'', ''b''])],
              keys = \<lparr>project = ''B'', action = ''build'', group = ''g''\<rparr>\<rparr>"
    by (rule r_into_rtranclp)
  have viable: "hasGroup \<lparr>priority = None, needs = [''C''], groups = [(''*'', [''make'', ''b''])],
              keys = \<lparr>project = ''B'', action = ''build'', group = ''g''\<rparr>\<rparr> ''g''
      \<or> hasGroup \<lparr>priority = None, needs = [''C''], groups = [(''*'', [''make'', ''b''])],
              keys = \<lparr>project = ''B'', action = ''build'', group = ''g''\<rparr>\<rparr> ''*''"
    by (simp add: hasGroup_def)
  note inst = rewiring_single_pass[OF sel dist order cover]
  have p1: "supports fallbackChain ''build'' ''g'' ''D''"
    using inst by simp
  have nb: "\<not> supports fallbackChain ''build'' ''g'' ''B''"
    by (simp add: supports_def fallbackChain_def projectHasGroup_def hasGroup_def)
  from inst a0 reach viable
  have "\<exists>a \<in> set [\<lparr>priority = None, needs = [''D''], groups = [(''g'', [''make'', ''a''])],
              keys = \<lparr>project = ''A'', action = ''build'', group = ''g''\<rparr>\<rparr>,
            \<lparr>priority = None, needs = [''D''], groups = [(''*'', [''make'', ''b''])],
              keys = \<lparr>project = ''B'', action = ''build'', group = ''*''\<rparr>\<rparr>,
            \<lparr>priority = None, needs = [''D''], groups = [(''*'', [''make'', ''c''])],
              keys = \<lparr>project = ''C'', action = ''build'', group = ''*''\<rparr>\<rparr>,
            \<lparr>priority = None, needs = [], groups = [(''g'', [''make'', ''d''])],
              keys = \<lparr>project = ''D'', action = ''build'', group = ''g''\<rparr>\<rparr>].
           keys a = \<lparr>project = ''B'', action = ''build'',
                      group = (if supports fallbackChain ''build'' ''g'' ''B'' then ''g'' else ''*'')\<rparr>"
    by fastforce
  then have p2: "\<exists>a \<in> set [\<lparr>priority = None, needs = [''D''], groups = [(''g'', [''make'', ''a''])],
              keys = \<lparr>project = ''A'', action = ''build'', group = ''g''\<rparr>\<rparr>,
            \<lparr>priority = None, needs = [''D''], groups = [(''*'', [''make'', ''b''])],
              keys = \<lparr>project = ''B'', action = ''build'', group = ''*''\<rparr>\<rparr>,
            \<lparr>priority = None, needs = [''D''], groups = [(''*'', [''make'', ''c''])],
              keys = \<lparr>project = ''C'', action = ''build'', group = ''*''\<rparr>\<rparr>,
            \<lparr>priority = None, needs = [], groups = [(''g'', [''make'', ''d''])],
              keys = \<lparr>project = ''D'', action = ''build'', group = ''g''\<rparr>\<rparr>].
        keys a = \<lparr>project = ''B'', action = ''build'', group = ''*''\<rparr>"
    using nb by simp
  show ?thesis using sel p1 p2 by blast
qed

text \<open>
  C5 as stated fails in its last part: in the scenario of the claim \<open>A\<close> needs \<open>C\<close>
  directly, and \<open>B\<close> is in the run, bound to \<open>*\<close>, whether the subset is \<open>A\<close> alone or all
  three projects.
\<close>

theorem fallback_project_stays_in_run:
  "map_sum id (map (\<lambda>a. (project (keys a), group (keys a), needs a)))
        (getProjectsToRunActionIn (\<lambda>c a. [''C'', ''B'', ''A'']) 5 fallback ''build'' ''g'' [''A''])
     = Inr [(''A'', ''g'', [''C'']), (''B'', ''*'', [''C'']), (''C'', ''g'', [])]
   \<and> map_sum id (map (\<lambda>a. (project (keys a), group (keys a), needs a)))
        (getProjectsToRunActionIn (\<lambda>c a. [''C'', ''B'', ''A'']) 5 fallback ''build'' ''g'' [''A'', ''B'', ''C''])
     = Inr [(''A'', ''g'', [''C'']), (''B'', ''*'', [''C'']), (''C'', ''g'', [])]"
  by (simp add: selection_defs fallback_def eval_nat_numeral)

section \<open>The keys of a freed action\<close>

text \<open>
  C10. When a completion under keys \<open>k\<close> settles, the actions it launches are, in order,
  the pending actions whose needs the completion has emptied. Each is launched under the
  keys of the completing call with only the project replaced: the action and the group
  are those of \<open>k\<close>, not the group the selection bound to the freed action. That key is
  the one looked up in the registry (it is begun afterwards, and a key already begun
  gives the duplicate record of that key). The invoker returns the keys it was called
  with, and its command is that of the group of the keys when the action has it and that
  of \<open>*\<close> otherwise.
\<close>

theorem freed_action_runs_under_inherited_group:
  assumes "settle runActionFn k st = (Settled res children removed, st')"
  shows "list_all2
       (\<lambda>c a. a \<in> set (present (blockedActions st)) \<and> a \<notin> set (present (blockedActions st')) \<and>
              needs (heap st' a) = [] \<and>
              (c = Running \<lparr>project = project (keys (heap st a)), action = action k, group = group k\<rparr> \<or>
               c = Duplicated (duplicateRecord
                      \<lparr>project = project (keys (heap st a)), action = action k, group = group k\<rparr>)) \<and>
              \<lparr>project = project (keys (heap st a)), action = action k, group = group k\<rparr> \<in> set (begun st'))
       children
       (filter (\<lambda>a. needs (heap st' a) = []) (present (snd (afterFailure res st))))
     \<and> (\<forall>getDir spawn config k' out.
           runAction getDir spawn config k' = Inr out \<longrightarrow>
             keysOf out = k' \<and>
             (\<exists>p a. map_of (projects config) (project k') = Some p \<and>
                    map_of (Project.actions p) (action k') = Some a \<and>
                    cmd out = (case map_of (groups a) (group k') of
                                 Some c \<Rightarrow> Some c
                               | None \<Rightarrow> map_of (groups a) ''*'')))"
proof (intro conjI allI impI)
  let ?b1 = "snd (afterFailure res st)"
  let ?freed = "filter (\<lambda>a. needs (dropNeed (project k) (heap st a)) = []) (present ?b1)"
  let ?key = "\<lambda>a. k\<lparr>project := project (keys (heap st a))\<rparr>"
  have fk: "runActionFn k = Inr res" by (rule settle_Settled[OF assms])
  from settle_effect[OF assms fk] obtain cs where
    new: "Settled res children removed = Settled res cs (fst (afterFailure res st))"
    and l: "launchAll (map ?key ?freed) (begun st) = (cs, begun st')"
    and pb: "present (blockedActions st') =
        filter (\<lambda>a. needs (dropNeed (project k) (heap st a)) \<noteq> []) (present ?b1)"
    and h: "\<forall>x. heap st' x = (if x \<in> set (present ?b1)
                          then dropNeed (project k) (heap st x) else heap st x)"
    by blast
  have cs: "cs = children" using new by simp
  have sub: "set (present ?b1) \<subseteq> set (present (blockedActions st))"
  proof (cases "exitCode res = Some 0")
    case True
    then show ?thesis by (simp add: afterFailure_def)
  next
    case False
    then show ?thesis
      using punched_set[OF skip_punched_total(1)[of "project res" "heap st" "blockedActions st"]]
      by (simp add: afterFailure_def)
  qed
  have freed_eq: "filter (\<lambda>a. needs (heap st' a) = []) (present ?b1) = ?freed"
    by (rule filter_cong) (use h in auto)
  have keyrec: "?key a = \<lparr>project = project (keys (heap st a)), action = action k, group = group k\<rparr>" for a
    by (cases k) simp
  have shape: "list_all2 (\<lambda>t k'. t = Running k' \<or> (t = Duplicated (duplicateRecord k') \<and> k' \<in> set (begun st')))
      children (map ?key ?freed)"
    using launchAll_shape[OF l] cs by simp
  have reg: "begun st' = begun st @ runningKeysAll children"
    using launchAll_registry[OF l] cs by simp
  have "list_all2
       (\<lambda>c a. a \<in> set (present (blockedActions st)) \<and> a \<notin> set (present (blockedActions st')) \<and>
              needs (heap st' a) = [] \<and>
              (c = Running (?key a) \<or> c = Duplicated (duplicateRecord (?key a))) \<and>
              ?key a \<in> set (begun st'))
       children ?freed"
    unfolding list_all2_conv_all_nth
  proof (intro conjI allI impI)
    show "length children = length ?freed"
      using list_all2_lengthD[OF shape] by simp
  next
    fix i assume i: "i < length children"
    then have il: "i < length ?freed" using list_all2_lengthD[OF shape] by simp
    let ?a = "?freed ! i"
    have mem: "?a \<in> set ?freed" using il by (rule nth_mem)
    then have a1: "?a \<in> set (present ?b1)" and a2: "needs (dropNeed (project k) (heap st ?a)) = []"
      by simp_all
    show "?a \<in> set (present (blockedActions st))" using a1 sub by blast
    show "?a \<notin> set (present (blockedActions st'))" unfolding pb using a2 by simp
    show "needs (heap st' ?a) = []" using h a1 a2 by simp
    have ci: "children ! i = Running (?key ?a) \<or>
        (children ! i = Duplicated (duplicateRecord (?key ?a)) \<and> ?key ?a \<in> set (begun st'))"
      using list_all2_nthD[OF shape i] il by simp
    then show "children ! i = Running (?key ?a) \<or> children ! i = Duplicated (duplicateRecord (?key ?a))"
      by blast
    show "?key ?a \<in> set (begun st')"
    proof (cases "children ! i = Running (?key ?a)")
      case True
      have "children ! i \<in> set children" using i by (rule nth_mem)
      then have "?key ?a \<in> set (runningKeysAll children)"
        unfolding True by (induction children) auto
      then show ?thesis unfolding reg by simp
    next
      case False
      then show ?thesis using ci by blast
    qed
  qed
  then show "list_all2
       (\<lambda>c a. a \<in> set (present (blockedActions st)) \<and> a \<notin> set (present (blockedActions st')) \<and>
              needs (heap st' a) = [] \<and>
              (c = Running \<lparr>project = project (keys (heap st a)), action = action k, group = group k\<rparr> \<or>
               c = Duplicated (duplicateRecord
                      \<lparr>project = project (keys (heap st a)), action = action k, group = group k\<rparr>)) \<and>
              \<lparr>project = project (keys (heap st a)), action = action k, group = group k\<rparr> \<in> set (begun st'))
       children
       (filter (\<lambda>a. needs (heap st' a) = []) (present (snd (afterFailure res st))))"
    unfolding freed_eq keyrec .
next
  fix getDir spawn config k' out
  assume "runAction getDir spawn config k' = Inr out"
  from runAction_record[OF this]
  show "keysOf out = k'" and "\<exists>p a. map_of (projects config) (project k') = Some p \<and>
                    map_of (Project.actions p) (action k') = Some a \<and>
                    cmd out = (case map_of (groups a) (group k') of
                                 Some c \<Rightarrow> Some c
                               | None \<Rightarrow> map_of (groups a) ''*'')"
    by blast+
qed

text \<open>
  The theorem at the run of group \<open>g\<close> over \<open>A\<close>, \<open>B\<close>, \<open>C\<close>, where \<open>B\<close> has \<open>*\<close> only and is
  bound to \<open>*\<close>: the completion of \<open>C\<close> launches \<open>B\<close> under group \<open>g\<close>, the record of \<open>B\<close> has
  group \<open>g\<close>, and its command is the one \<open>B\<close> declares for \<open>*\<close>.
\<close>

theorem freed_action_runs_under_inherited_group_witness:
  "getProjectsToRunActionIn (\<lambda>c a. [''C'', ''B'', ''A'']) 5 fallback ''build'' ''g'' [''A'']
     = Inr [\<lparr>priority = None, needs = [''C''], groups = [(''g'', [''make'', ''a''])],
             keys = \<lparr>project = ''A'', action = ''build'', group = ''g''\<rparr>\<rparr>,
            \<lparr>priority = None, needs = [''C''], groups = [(''*'', [''make'', ''b''])],
             keys = \<lparr>project = ''B'', action = ''build'', group = ''*''\<rparr>\<rparr>,
            \<lparr>priority = None, needs = [], groups = [(''g'', [''make'', ''c''])],
             keys = \<lparr>project = ''C'', action = ''build'', group = ''g''\<rparr>\<rparr>]
   \<and> fst (settle (runAction remoteDir exits0 fallback) \<lparr>project = ''C'', action = ''build'', group = ''g''\<rparr>
        ((initial
           [\<lparr>priority = None, needs = [''C''], groups = [(''g'', [''make'', ''a''])],
             keys = \<lparr>project = ''A'', action = ''build'', group = ''g''\<rparr>\<rparr>,
            \<lparr>priority = None, needs = [''C''], groups = [(''*'', [''make'', ''b''])],
             keys = \<lparr>project = ''B'', action = ''build'', group = ''*''\<rparr>\<rparr>,
            \<lparr>priority = None, needs = [], groups = [(''g'', [''make'', ''c''])],
             keys = \<lparr>project = ''C'', action = ''build'', group = ''g''\<rparr>\<rparr>])\<lparr>begun := [\<lparr>project = ''C'', action = ''build'', group = ''g''\<rparr>]\<rparr>))
     = Settled (\<lparr>project = ''C'', action = ''build'', group = ''g'', stdout = Some [], stderr = Some [],
            exitCode = Some 0, signal = None, dir = Some ''/w/C'', cmd = Some [''make'', ''c''],
            wasSkippedBy = None, wasSkippedDuplicated = False\<rparr>)
         [Running \<lparr>project = ''A'', action = ''build'', group = ''g''\<rparr>, Running \<lparr>project = ''B'', action = ''build'', group = ''g''\<rparr>] []
   \<and> runAction remoteDir exits0 fallback \<lparr>project = ''B'', action = ''build'', group = ''g''\<rparr>
     = Inr (\<lparr>project = ''B'', action = ''build'', group = ''g'', stdout = Some [], stderr = Some [],
            exitCode = Some 0, signal = None, dir = Some ''/w/B'', cmd = Some [''make'', ''b''],
            wasSkippedBy = None, wasSkippedDuplicated = False\<rparr>)
   \<and> keysOf (\<lparr>project = ''B'', action = ''build'', group = ''g'', stdout = Some [], stderr = Some [],
            exitCode = Some 0, signal = None, dir = Some ''/w/B'', cmd = Some [''make'', ''b''],
            wasSkippedBy = None, wasSkippedDuplicated = False\<rparr>) = \<lparr>project = ''B'', action = ''build'', group = ''g''\<rparr>
   \<and> actions (\<lambda>c a. [''C'', ''B'', ''A'']) 5 (runAction remoteDir exits0 fallback) [] fallback ''build'' ''g'' [''A'']
     = Inr [\<lparr>project = ''C'', action = ''build'', group = ''g'', stdout = Some [], stderr = Some [],
            exitCode = Some 0, signal = None, dir = Some ''/w/C'', cmd = Some [''make'', ''c''],
            wasSkippedBy = None, wasSkippedDuplicated = False\<rparr>,
            \<lparr>project = ''A'', action = ''build'', group = ''g'', stdout = Some [], stderr = Some [],
            exitCode = Some 0, signal = None, dir = Some ''/w/A'', cmd = Some [''make'', ''a''],
            wasSkippedBy = None, wasSkippedDuplicated = False\<rparr>,
            \<lparr>project = ''B'', action = ''build'', group = ''g'', stdout = Some [], stderr = Some [],
            exitCode = Some 0, signal = None, dir = Some ''/w/B'', cmd = Some [''make'', ''b''],
            wasSkippedBy = None, wasSkippedDuplicated = False\<rparr>]"
proof -
  have sel: "getProjectsToRunActionIn (\<lambda>c a. [''C'', ''B'', ''A'']) 5 fallback ''build'' ''g'' [''A'']
     = Inr [\<lparr>priority = None, needs = [''C''], groups = [(''g'', [''make'', ''a''])],
             keys = \<lparr>project = ''A'', action = ''build'', group = ''g''\<rparr>\<rparr>,
            \<lparr>priority = None, needs = [''C''], groups = [(''*'', [''make'', ''b''])],
             keys = \<lparr>project = ''B'', action = ''build'', group = ''*''\<rparr>\<rparr>,
            \<lparr>priority = None, needs = [], groups = [(''g'', [''make'', ''c''])],
             keys = \<lparr>project = ''C'', action = ''build'', group = ''g''\<rparr>\<rparr>]"
    by (simp add: selection_defs fallback_def eval_nat_numeral)
  have step: "fst (settle (runAction remoteDir exits0 fallback) \<lparr>project = ''C'', action = ''build'', group = ''g''\<rparr>
        ((initial
           [\<lparr>priority = None, needs = [''C''], groups = [(''g'', [''make'', ''a''])],
             keys = \<lparr>project = ''A'', action = ''build'', group = ''g''\<rparr>\<rparr>,
            \<lparr>priority = None, needs = [''C''], groups = [(''*'', [''make'', ''b''])],
             keys = \<lparr>project = ''B'', action = ''build'', group = ''*''\<rparr>\<rparr>,
            \<lparr>priority = None, needs = [], groups = [(''g'', [''make'', ''c''])],
             keys = \<lparr>project = ''C'', action = ''build'', group = ''g''\<rparr>\<rparr>])\<lparr>begun := [\<lparr>project = ''C'', action = ''build'', group = ''g''\<rparr>]\<rparr>))
     = Settled (\<lparr>project = ''C'', action = ''build'', group = ''g'', stdout = Some [], stderr = Some [],
            exitCode = Some 0, signal = None, dir = Some ''/w/C'', cmd = Some [''make'', ''c''],
            wasSkippedBy = None, wasSkippedDuplicated = False\<rparr>)
         [Running \<lparr>project = ''A'', action = ''build'', group = ''g''\<rparr>, Running \<lparr>project = ''B'', action = ''build'', group = ''g''\<rparr>] []"
    by (simp add: run_defs fallback_def exits0_def)
  have rec: "runAction remoteDir exits0 fallback \<lparr>project = ''B'', action = ''build'', group = ''g''\<rparr>
     = Inr (\<lparr>project = ''B'', action = ''build'', group = ''g'', stdout = Some [], stderr = Some [],
            exitCode = Some 0, signal = None, dir = Some ''/w/B'', cmd = Some [''make'', ''b''],
            wasSkippedBy = None, wasSkippedDuplicated = False\<rparr>)"
    by (simp add: run_defs fallback_def exits0_def)
  have run: "actions (\<lambda>c a. [''C'', ''B'', ''A'']) 5 (runAction remoteDir exits0 fallback) [] fallback ''build'' ''g'' [''A'']
     = Inr [\<lparr>project = ''C'', action = ''build'', group = ''g'', stdout = Some [], stderr = Some [],
            exitCode = Some 0, signal = None, dir = Some ''/w/C'', cmd = Some [''make'', ''c''],
            wasSkippedBy = None, wasSkippedDuplicated = False\<rparr>,
            \<lparr>project = ''A'', action = ''build'', group = ''g'', stdout = Some [], stderr = Some [],
            exitCode = Some 0, signal = None, dir = Some ''/w/A'', cmd = Some [''make'', ''a''],
            wasSkippedBy = None, wasSkippedDuplicated = False\<rparr>,
            \<lparr>project = ''B'', action = ''build'', group = ''g'', stdout = Some [], stderr = Some [],
            exitCode = Some 0, signal = None, dir = Some ''/w/B'', cmd = Some [''make'', ''b''],
            wasSkippedBy = None, wasSkippedDuplicated = False\<rparr>]"
    unfolding actions_def sel
    by (simp add: run_defs fallback_def exits0_def)
  obtain st' where "settle (runAction remoteDir exits0 fallback) \<lparr>project = ''C'', action = ''build'', group = ''g''\<rparr>
        ((initial
           [\<lparr>priority = None, needs = [''C''], groups = [(''g'', [''make'', ''a''])],
             keys = \<lparr>project = ''A'', action = ''build'', group = ''g''\<rparr>\<rparr>,
            \<lparr>priority = None, needs = [''C''], groups = [(''*'', [''make'', ''b''])],
             keys = \<lparr>project = ''B'', action = ''build'', group = ''*''\<rparr>\<rparr>,
            \<lparr>priority = None, needs = [], groups = [(''g'', [''make'', ''c''])],
             keys = \<lparr>project = ''C'', action = ''build'', group = ''g''\<rparr>\<rparr>])\<lparr>begun := [\<lparr>project = ''C'', action = ''build'', group = ''g''\<rparr>]\<rparr>)
     = (Settled (\<lparr>project = ''C'', action = ''build'', group = ''g'', stdout = Some [], stderr = Some [],
            exitCode = Some 0, signal = None, dir = Some ''/w/C'', cmd = Some [''make'', ''c''],
            wasSkippedBy = None, wasSkippedDuplicated = False\<rparr>)
         [Running \<lparr>project = ''A'', action = ''build'', group = ''g''\<rparr>, Running \<lparr>project = ''B'', action = ''build'', group = ''g''\<rparr>] [], st')"
    using step by (cases "settle (runAction remoteDir exits0 fallback) \<lparr>project = ''C'', action = ''build'', group = ''g''\<rparr>
        ((initial
           [\<lparr>priority = None, needs = [''C''], groups = [(''g'', [''make'', ''a''])],
             keys = \<lparr>project = ''A'', action = ''build'', group = ''g''\<rparr>\<rparr>,
            \<lparr>priority = None, needs = [''C''], groups = [(''*'', [''make'', ''b''])],
             keys = \<lparr>project = ''B'', action = ''build'', group = ''*''\<rparr>\<rparr>,
            \<lparr>priority = None, needs = [], groups = [(''g'', [''make'', ''c''])],
             keys = \<lparr>project = ''C'', action = ''build'', group = ''g''\<rparr>\<rparr>])\<lparr>begun := [\<lparr>project = ''C'', action = ''build'', group = ''g''\<rparr>]\<rparr>)") simp
  from freed_action_runs_under_inherited_group[OF this] rec
  have "keysOf (\<lparr>project = ''B'', action = ''build'', group = ''g'', stdout = Some [], stderr = Some [],
            exitCode = Some 0, signal = None, dir = Some ''/w/B'', cmd = Some [''make'', ''b''],
            wasSkippedBy = None, wasSkippedDuplicated = False\<rparr>) = \<lparr>project = ''B'', action = ''build'', group = ''g''\<rparr>"
    by blast
  then show ?thesis using sel step rec run by blast
qed

section \<open>The registry of begun keys\<close>

text \<open>
  C8. In a run that returns, with an invoker that answers with the keys it was given, no key
  has more than one executed record, so the invoker returned at most once for it; and every
  duplicate record has exactly one executed record of its key beside it. At the wrapper:
  launching a key the registry holds yields the duplicate record alone, with no invocation
  left to run and the registry unchanged; launching a key it does not hold registers the key
  and starts the invocation, and launching it a second time yields the duplicate record.
\<close>

theorem same_key_is_invoked_once:
  assumes "echoes runActionFn" and "run runActionFn schedule items = Inr outs"
  shows "length (filter (\<lambda>out. executed out \<and> keysOf out = k) outs) \<le> 1
       \<and> (\<forall>d \<in> set outs. wasSkippedDuplicated d \<longrightarrow>
             length (filter (\<lambda>out. executed out \<and> keysOf out = keysOf d) outs) = 1)
       \<and> (\<forall>reg. k \<in> set reg \<longrightarrow> launch k reg = (Duplicated (duplicateRecord k), reg))
       \<and> (\<forall>reg. k \<notin> set reg \<longrightarrow> launch k reg = (Running k, reg @ [k])
                \<and> launch k (reg @ [k]) = (Duplicated (duplicateRecord k), reg @ [k]))
       \<and> countRunning (Duplicated (duplicateRecord k)) = 0"
proof -
  obtain st' where i: "onceInv {#} (mset outs) True st'"
    using run_onceInv[OF assms] by blast
  have d: "distinct (begun st')"
    and m: "mset (begun st') = image_mset keysOf (filter_mset executed (mset outs))"
    and q: "\<forall>d \<in> set outs. wasSkippedDuplicated d \<longrightarrow> keysOf d \<in> set (begun st')"
    using i by (simp_all add: onceInv_def)
  have c: "\<And>j. length (filter (\<lambda>out. executed out \<and> keysOf out = j) outs) = count (mset (begun st')) j"
    unfolding m by (rule count_filter_keys[symmetric])
  have le: "\<And>j. count (mset (begun st')) j \<le> 1"
    using d by (simp add: distinct_count_atmost_1)
  have one: "\<And>j. j \<in> set (begun st') \<Longrightarrow> count (mset (begun st')) j = 1"
    using d by (simp add: distinct_count_atmost_1)
  have p1: "length (filter (\<lambda>out. executed out \<and> keysOf out = k) outs) \<le> 1"
    unfolding c by (rule le)
  have p2: "\<forall>d \<in> set outs. wasSkippedDuplicated d \<longrightarrow>
             length (filter (\<lambda>out. executed out \<and> keysOf out = keysOf d) outs) = 1"
    unfolding c using q one by blast
  show ?thesis using p1 p2 by (simp add: launch_cases)
qed

text \<open>
  The theorem at the run of \<open>A\<close> and \<open>B\<close>: the completion of \<open>A\<close> launches \<open>B\<close> in the pass of
  priority 0, and the pass of priority 5 launches \<open>B\<close> again, under the same key: one executed
  and one duplicate record for \<open>B\<close>.
\<close>

theorem same_key_is_invoked_once_witness:
  "getProjectsToRunActionIn (\<lambda>c a. [''A'', ''B'']) 5 laterTier ''build'' ''*'' [''A'', ''B'']
     = Inr laterTierItems
   \<and> run (runAction remoteDir exits0 laterTier) [] laterTierItems = Inr laterTierRecords
   \<and> map executed laterTierRecords = [True, True, False]
   \<and> map wasSkippedDuplicated laterTierRecords = [False, False, True]
   \<and> map keysOf laterTierRecords =
       [\<lparr>project = ''A'', action = ''build'', group = ''*''\<rparr>,
        \<lparr>project = ''B'', action = ''build'', group = ''*''\<rparr>,
        \<lparr>project = ''B'', action = ''build'', group = ''*''\<rparr>]
   \<and> length (filter (\<lambda>out. executed out \<and> keysOf out = \<lparr>project = ''B'', action = ''build'', group = ''*''\<rparr>)
        laterTierRecords) = 1"
proof -
  have flags: "map executed laterTierRecords = [True, True, False]"
    "map wasSkippedDuplicated laterTierRecords = [False, False, True]"
    "map keysOf laterTierRecords =
       [\<lparr>project = ''A'', action = ''build'', group = ''*''\<rparr>,
        \<lparr>project = ''B'', action = ''build'', group = ''*''\<rparr>,
        \<lparr>project = ''B'', action = ''build'', group = ''*''\<rparr>]"
    by (simp_all add: laterTierRecords_def executed_def keysOf_def)
  have dup: "laterTierRecords ! 2 \<in> set laterTierRecords" "wasSkippedDuplicated (laterTierRecords ! 2)"
    "keysOf (laterTierRecords ! 2) = \<lparr>project = ''B'', action = ''build'', group = ''*''\<rparr>"
    by (simp_all add: laterTierRecords_def keysOf_def)
  from same_key_is_invoked_once[OF runAction_echoes laterTier_run,
      of "\<lparr>project = ''B'', action = ''build'', group = ''*''\<rparr>"]
  have "\<forall>d \<in> set laterTierRecords. wasSkippedDuplicated d \<longrightarrow>
          length (filter (\<lambda>out. executed out \<and> keysOf out = keysOf d) laterTierRecords) = 1"
    by blast
  then have "length (filter (\<lambda>out. executed out \<and> keysOf out = keysOf (laterTierRecords ! 2))
                laterTierRecords) = 1"
    using dup(1,2) by blast
  then have "length (filter (\<lambda>out. executed out \<and> keysOf out = \<lparr>project = ''B'', action = ''build'', group = ''*''\<rparr>)
        laterTierRecords) = 1"
    unfolding dup(3) .
  then show ?thesis using laterTier_selection laterTier_run flags by blast
qed

section \<open>The cascade after a failure\<close>





section \<open>The tiers and the freed actions\<close>




end
